theory Spec2Isabelle
  imports Complex_Main "HOL-Library.Sublist" "HOL-Library.Log_Nat"
begin

section \<open>Python text primitives used by \<open>dahua_mqtt.py\<close>\<close>

text \<open>
  Bytes and text are both \<open>string\<close> (a list of 8-bit characters).  A Python \<open>str\<close> is
  represented by its UTF-8 encoding, so one code point is one to four characters of the
  model.  All separators of the program (\<open>\r\n\<close>, \<open>;\<close>, \<open>=\<close>, \<open>,\<close>, \<open>/\<close>) are ASCII and
  never occur inside a multi-byte sequence, hence splitting, prefix tests and stripping
  act on the encoding exactly as they act on the code points.
\<close>

definition CR :: char where "CR = CHR 0x0D"
definition LF :: char where "LF = CHR 0x0A"
definition CRLF :: string where "CRLF = [CR, LF]"

definition byte :: "char \<Rightarrow> nat" where
  "byte c = of_char c"

definition in_range :: "nat \<Rightarrow> nat \<Rightarrow> char \<Rightarrow> bool" where
  "in_range lo hi c = (lo \<le> byte c \<and> byte c \<le> hi)"

text \<open>
  \<open>utf8_len bs\<close> is the length of the well-formed UTF-8 sequence at the head of \<open>bs\<close>
  (Unicode table 3-7: no overlong forms, no surrogates, nothing above U+10FFFF), and 0
  when the head byte starts none.
\<close>

fun utf8_len :: "string \<Rightarrow> nat" where
  "utf8_len [] = 0"
| "utf8_len (b # bs) =
     (let n = byte b in
      if n < 0x80 then 1
      else if 0xC2 \<le> n \<and> n \<le> 0xDF then
        (case bs of c1 # _ \<Rightarrow> if in_range 0x80 0xBF c1 then 2 else 0 | _ \<Rightarrow> 0)
      else if 0xE0 \<le> n \<and> n \<le> 0xEF then
        (case bs of c1 # c2 # _ \<Rightarrow>
           if in_range (if n = 0xE0 then 0xA0 else 0x80) (if n = 0xED then 0x9F else 0xBF) c1
              \<and> in_range 0x80 0xBF c2 then 3 else 0
         | _ \<Rightarrow> 0)
      else if 0xF0 \<le> n \<and> n \<le> 0xF4 then
        (case bs of c1 # c2 # c3 # _ \<Rightarrow>
           if in_range (if n = 0xF0 then 0x90 else 0x80) (if n = 0xF4 then 0x8F else 0xBF) c1
              \<and> in_range 0x80 0xBF c2 \<and> in_range 0x80 0xBF c3 then 4 else 0
         | _ \<Rightarrow> 0)
      else 0)"

text \<open>
  \<open>data.decode("utf-8", errors="ignore")\<close>: well-formed sequences are kept, every other
  byte is dropped.  (CPython drops the maximal ill-formed prefix and resumes at the
  offending byte; the bytes of that prefix after the first are continuation bytes,
  which start no sequence, so dropping one byte at a time gives the same text.)
  The result is split into code points: one list element per character of the \<open>str\<close>.
\<close>

function code_points :: "string \<Rightarrow> string list" where
  "code_points [] = []"
| "code_points (b # bs) =
     (if utf8_len (b # bs) = 0 then code_points bs
      else take (utf8_len (b # bs)) (b # bs) # code_points (drop (utf8_len (b # bs)) (b # bs)))"
  by pat_completeness auto
termination
  by (relation "measure length") auto

definition decode :: "string \<Rightarrow> string" where
  "decode data = concat (code_points data)"

text \<open>
  \<open>s.split(sep)\<close> for a non-empty separator: scan from the left, cut at every
  occurrence of \<open>sep\<close> and resume after it.  The result is never empty.  (Python raises
  \<open>ValueError\<close> on an empty separator; the program only passes the literals
  \<open>"\r\n"\<close>, \<open>';'\<close>, \<open>'='\<close> and \<open>','\<close>.)
\<close>

fun push :: "char \<Rightarrow> string list \<Rightarrow> string list" where
  "push c [] = [[c]]"
| "push c (l # ls) = (c # l) # ls"

function py_split :: "string \<Rightarrow> string \<Rightarrow> string list" where
  "py_split sep [] = [[]]"
| "py_split sep (c # cs) =
     (if sep \<noteq> [] \<and> prefix sep (c # cs)
      then [] # py_split sep (drop (length sep) (c # cs))
      else push c (py_split sep cs))"
  by pat_completeness auto
termination
  by (relation "measure (\<lambda>(sep, s). length s)") auto

text \<open>\<open>s.strip("/")\<close>: leading and trailing slashes removed.\<close>

definition py_strip_slash :: "string \<Rightarrow> string" where
  "py_strip_slash s =
     rev (dropWhile (\<lambda>c. c = CHR ''/'') (rev (dropWhile (\<lambda>c. c = CHR ''/'') s)))"

text \<open>
  \<open>s.lower()\<close> on the ASCII letters; every other character is kept.  Python lowers
  the letters outside ASCII as well, so for a key with such letters the key stored in
  the record (and printed by \<open>json.dumps\<close>) differs from the one modelled here.  No
  letter outside ASCII lowers to a letter of \<open>code\<close> or \<open>action\<close>, so the two lookups of
  the program, the filter and the number of publish calls do not depend on them.
\<close>

definition lower_char :: "char \<Rightarrow> char" where
  "lower_char c =
     (case map_of (zip ''ABCDEFGHIJKLMNOPQRSTUVWXYZ'' ''abcdefghijklmnopqrstuvwxyz'') c of
        None \<Rightarrow> c
      | Some l \<Rightarrow> l)"

definition py_lower :: "string \<Rightarrow> string" where
  "py_lower s = map lower_char s"

subsection \<open>Dictionaries with string keys\<close>

text \<open>
  A Python \<open>dict\<close> keeps insertion order, and assigning to a key that is present
  replaces the value in place.
\<close>

type_synonym dict = "(string \<times> string) list"

fun dict_set :: "dict \<Rightarrow> string \<Rightarrow> string \<Rightarrow> dict" where
  "dict_set [] k v = [(k, v)]"
| "dict_set ((k', v') # d) k v = (if k' = k then (k, v) # d else (k', v') # dict_set d k v)"

datatype py_error =
    ValueError_not_enough nat
  | ValueError_too_many
  | KeyError string
  | StopIteration
  | AttributeError string
  | TypeError string
  | CurlError string

definition dict_get :: "dict \<Rightarrow> string \<Rightarrow> py_error + string" where
  "dict_get d k = (case map_of d k of None \<Rightarrow> Inl (KeyError k) | Some v \<Rightarrow> Inr v)"

subsection \<open>\<open>json.dumps\<close> of a dictionary of strings\<close>

definition hex_digit :: "nat \<Rightarrow> char" where
  "hex_digit n = ''0123456789abcdef'' ! (n mod 16)"

definition BSL :: char where "BSL = CHR 0x5C"
definition DQ :: char where "DQ = CHR 0x22"

definition u_escape :: "nat \<Rightarrow> string" where
  "u_escape n =
     [BSL, CHR ''u'', hex_digit (n div 4096), hex_digit (n div 256), hex_digit (n div 16),
      hex_digit n]"

fun code_point_value :: "string \<Rightarrow> nat" where
  "code_point_value [a] = byte a"
| "code_point_value [a, b] = (byte a mod 32) * 64 + byte b mod 64"
| "code_point_value [a, b, c] = (byte a mod 16) * 4096 + (byte b mod 64) * 64 + byte c mod 64"
| "code_point_value [a, b, c, d] =
     (byte a mod 8) * 262144 + (byte b mod 64) * 4096 + (byte c mod 64) * 64 + byte d mod 64"
| "code_point_value _ = 0"

text \<open>
  The encoder of \<open>json.dumps\<close> with its default \<open>ensure_ascii=True\<close>: printable ASCII
  except \<open>"\<close> and \<open>\\<close> is copied, the short escapes are used where they exist, and every
  other character becomes \<open>\uXXXX\<close> (a surrogate pair above U+FFFF).
\<close>

definition json_escape_cp :: "string \<Rightarrow> string" where
  "json_escape_cp cp =
     (let n = code_point_value cp in
      if n = 0x22 then [BSL, DQ]
      else if n = 0x5C then [BSL, BSL]
      else if n = 0x0A then [BSL, CHR ''n'']
      else if n = 0x0D then [BSL, CHR ''r'']
      else if n = 0x09 then [BSL, CHR ''t'']
      else if n = 0x08 then [BSL, CHR ''b'']
      else if n = 0x0C then [BSL, CHR ''f'']
      else if 0x20 \<le> n \<and> n \<le> 0x7E then cp
      else if n < 0x10000 then u_escape n
      else u_escape (0xD800 + ((n - 0x10000) div 1024) mod 1024)
           @ u_escape (0xDC00 + (n - 0x10000) mod 1024))"

definition json_string :: "string \<Rightarrow> string" where
  "json_string s = [DQ] @ concat (map json_escape_cp (code_points s)) @ [DQ]"

fun join :: "string \<Rightarrow> string list \<Rightarrow> string" where
  "join sep [] = []"
| "join sep [x] = x"
| "join sep (x # y # ys) = x @ sep @ join sep (y # ys)"

definition json_dumps :: "dict \<Rightarrow> string" where
  "json_dumps d =
     ''{'' @ join '', '' (map (\<lambda>(k, v). json_string k @ '': '' @ json_string v) d) @ ''}''"

section \<open>The camera object: parsing, filtering and publishing\<close>

text \<open>
  \<open>config\<close> is the camera's dictionary of the application's configuration (\<open>self.camera\<close>),
  with the keys the program reads after start-up.  \<open>camera\<close> is a \<open>DahuaCamera\<close> object;
  \<open>curlobj\<close> is the identity of its \<open>pycurl.Curl\<close> object, \<open>reconnect\<close> the deadline
  (a reading of \<open>time.time()\<close> plus 5) or \<open>None\<close>.
\<close>

record config =
  host :: string
  topic :: string
  events :: string

record camera =
  cfg :: config
  curlobj :: "nat option"
  connected :: "bool option"
  reconnect :: "real option"

text \<open>
  The host application (\<open>self.hass\<close>) is an external collaborator.  Its observable
  effects are the log and the sequence of \<open>call_service("mqtt/publish", topic, payload)\<close>
  calls; both calls are taken to return normally.  A log entry records which message
  was written and with which arguments.
\<close>

datatype reason =
    Success "(nat \<times> int \<times> string) list"
  | Failure string int

datatype log_entry =
    LogStartingThread
  | LogKillingThread
  | LogThreadExited
  | LogOnConnect string
  | LogOnDisconnect string reason
  | LogPublishing string string string
  | LogFailedToParse py_error

record hass =
  logs :: "log_entry list"
  published :: "(string \<times> string) list"

definition hass_log :: "log_entry \<Rightarrow> hass \<Rightarrow> hass" where
  "hass_log e h = h\<lparr>logs := logs h @ [e]\<rparr>"

text \<open>The body of the loop of \<open>on_alarm\<close>: strip the topic, log, publish.\<close>

definition publish :: "config \<Rightarrow> string \<times> string \<Rightarrow> hass \<Rightarrow> hass" where
  "publish c item h =
     (let t = py_strip_slash (fst item) in
      (hass_log (LogPublishing (host c) t (snd item)) h)
        \<lparr>published := published h @ [(t, snd item)]\<rparr>)"

text \<open>
  \<open>on_alarm\<close>: the dictionary display is evaluated left to right, so a missing \<open>code\<close>
  or \<open>action\<close> raises \<open>KeyError\<close> before anything is logged or published; the second key
  replaces the first entry's value when the two keys are equal.
\<close>

definition on_alarm :: "camera \<Rightarrow> dict \<Rightarrow> hass \<Rightarrow> py_error + hass" where
  "on_alarm cam state h =
     (case dict_get state ''code'' of
        Inl e \<Rightarrow> Inl e
      | Inr code \<Rightarrow>
          (case dict_get state ''action'' of
             Inl e \<Rightarrow> Inl e
           | Inr action \<Rightarrow>
               (let mqtt_data =
                      dict_set (dict_set [] (topic (cfg cam)) (json_dumps state))
                        (topic (cfg cam) @ code) action
                in Inr (fold (publish (cfg cam)) mqtt_data h))))"

definition on_connect :: "camera \<times> hass \<Rightarrow> camera \<times> hass" where
  "on_connect st =
     (case st of (cam, h) \<Rightarrow>
        (cam\<lparr>connected := Some True\<rparr>, hass_log (LogOnConnect (host (cfg cam))) h))"

definition on_disconnect :: "reason \<Rightarrow> camera \<times> hass \<Rightarrow> camera \<times> hass" where
  "on_disconnect r st =
     (case st of (cam, h) \<Rightarrow>
        (cam\<lparr>connected := Some False\<rparr>, hass_log (LogOnDisconnect (host (cfg cam)) r) h))"

definition parse_event :: "camera \<Rightarrow> dict \<Rightarrow> hass \<Rightarrow> py_error + hass" where
  "parse_event cam alarm h =
     (case dict_get alarm ''code'' of
        Inl e \<Rightarrow> Inl e
      | Inr code \<Rightarrow>
          if code \<notin> set (py_split '','' (events (cfg cam))) then Inr h
          else on_alarm cam alarm h)"

text \<open>\<open>key, val = keyval.split('=')\<close>: anything but two parts raises \<open>ValueError\<close>.\<close>

definition unpack2 :: "string list \<Rightarrow> py_error + (string \<times> string)" where
  "unpack2 parts =
     (case parts of
        [key, val] \<Rightarrow> Inr (key, val)
      | _ \<Rightarrow> if length parts < 2 then Inl (ValueError_not_enough (length parts))
             else Inl ValueError_too_many)"

fun build_alarm :: "string list \<Rightarrow> dict \<Rightarrow> py_error + dict" where
  "build_alarm [] alarm = Inr alarm"
| "build_alarm (keyval # rest) alarm =
     (case unpack2 (py_split ''='' keyval) of
        Inl e \<Rightarrow> Inl e
      | Inr (key, val) \<Rightarrow> build_alarm rest (dict_set alarm (py_lower key) val))"

text \<open>
  One iteration of the loop of \<open>on_receive\<close>.  Whatever is raised while the record is
  built, filtered or published is caught and logged; nothing has been published at the
  point where \<open>on_alarm\<close> can raise, so the state at the handler is the state before the
  \<open>try\<close>.
\<close>

definition handle_line :: "string \<Rightarrow> camera \<times> hass \<Rightarrow> camera \<times> hass" where
  "handle_line line st =
     (let st1 = (if line = ''HTTP/1.1 200 OK'' then on_connect st else st) in
      if \<not> prefix ''Code='' line then st1
      else
        (case build_alarm (py_split '';'' line) [] of
           Inl e \<Rightarrow> (fst st1, hass_log (LogFailedToParse e) (snd st1))
         | Inr alarm \<Rightarrow>
             (case parse_event (fst st1) alarm (snd st1) of
                Inl e \<Rightarrow> (fst st1, hass_log (LogFailedToParse e) (snd st1))
              | Inr h \<Rightarrow> (fst st1, h))))"

definition on_receive :: "string \<Rightarrow> camera \<times> hass \<Rightarrow> camera \<times> hass" where
  "on_receive data st = fold handle_line (py_split CRLF (decode data)) st"

section \<open>The application object and its worker thread\<close>

text \<open>
  \<open>cameras\<close>, \<open>curl_multiobj\<close>, \<open>num_curlobj\<close> and \<open>kill_thread\<close> are attributes of the
  class \<open>DahuaMQTT\<close>.  \<open>shared\<close> holds what is reached through the class: the one list
  object, the one \<open>CurlMulti\<close> object (the handles added to it, in order) and the two
  immutable class values; beside them the host application's effects, the supply of
  fresh \<open>pycurl.Curl\<close> identities and the number of \<open>time.time()\<close> calls made so far.
  \<open>dahua_mqtt\<close> is the \<open>__dict__\<close> of one instance: an attribute assigned through
  \<open>self\<close> lives there and hides the class attribute of the same name.  \<open>proc\<close> is the
  worker thread, represented by the place it has reached: the head of one of the three
  \<open>while\<close> loops of \<open>thread_process\<close> (about to test \<open>kill_thread\<close>), inside the call of
  \<open>perform\<close> or \<open>select\<close> that follows the test, ended normally, or ended by an exception.
\<close>

datatype pc =
    Loop1 | In_perform1
  | Loop2 | In_select
  | Loop3 | In_perform3
  | Exited
  | Died py_error

record shared =
  cameras :: "camera list"
  multi :: "nat list"
  class_num_curlobj :: nat
  class_kill_thread :: bool
  app_hass :: hass
  next_curl :: nat
  clock_reads :: nat

record dahua_mqtt =
  args_cameras :: "config list"
  proc :: "pc option"
  own_num_curlobj :: "nat option"
  own_kill_thread :: "bool option"

definition fresh_shared :: shared where
  "fresh_shared =
     \<lparr>cameras = [], multi = [], class_num_curlobj = 0, class_kill_thread = False,
      app_hass = \<lparr>logs = [], published = []\<rparr>, next_curl = 0, clock_reads = 0\<rparr>"

definition new_instance :: "config list \<Rightarrow> dahua_mqtt" where
  "new_instance cs =
     \<lparr>args_cameras = cs, proc = None, own_num_curlobj = None, own_kill_thread = None\<rparr>"

text \<open>Reading \<open>self.num_curlobj\<close> and \<open>self.kill_thread\<close>: the instance first, then the class.\<close>

definition num_curlobj :: "dahua_mqtt \<Rightarrow> shared \<Rightarrow> nat" where
  "num_curlobj self sh =
     (case own_num_curlobj self of Some n \<Rightarrow> n | None \<Rightarrow> class_num_curlobj sh)"

definition kill_thread :: "dahua_mqtt \<Rightarrow> shared \<Rightarrow> bool" where
  "kill_thread self sh =
     (case own_kill_thread self of Some b \<Rightarrow> b | None \<Rightarrow> class_kill_thread sh)"

text \<open>
  One iteration of the loop of \<open>initialize\<close>.  The handle is a new object, so
  \<open>add_handle\<close> succeeds; the options set on it are not modelled.  \<open>self.num_curlobj += 1\<close>
  reads through the instance and the class and assigns to the instance.
\<close>

definition add_camera :: "config \<Rightarrow> dahua_mqtt \<times> shared \<Rightarrow> dahua_mqtt \<times> shared" where
  "add_camera c st =
     (case st of (self, sh) \<Rightarrow>
        (let h = next_curl sh;
             dahuacam = \<lparr>cfg = c, curlobj = Some h, connected = None, reconnect = None\<rparr>
         in (self\<lparr>own_num_curlobj := Some (num_curlobj self sh + 1)\<rparr>,
             sh\<lparr>cameras := cameras sh @ [dahuacam], multi := multi sh @ [h],
                next_curl := h + 1\<rparr>)))"

text \<open>The camera objects that \<open>initialize\<close> creates for a list of configurations.\<close>

definition new_cameras :: "config list \<Rightarrow> nat \<Rightarrow> camera list" where
  "new_cameras cs n =
     map (\<lambda>(c, h). \<lparr>cfg = c, curlobj = Some h, connected = None, reconnect = None\<rparr>)
       (zip cs [n..<n + length cs])"

definition initialize :: "dahua_mqtt \<times> shared \<Rightarrow> dahua_mqtt \<times> shared" where
  "initialize st =
     (case fold add_camera (args_cameras (fst st)) st of (self, sh) \<Rightarrow>
        (self\<lparr>proc := Some Loop1\<rparr>, sh\<lparr>app_hass := hass_log LogStartingThread (app_hass sh)\<rparr>))"

definition is_alive :: "pc \<Rightarrow> bool" where
  "is_alive p = (case p of Exited \<Rightarrow> False | Died e \<Rightarrow> False | _ \<Rightarrow> True)"

text \<open>\<open>terminate\<close>, up to the \<open>join\<close>: the flag is assigned on the instance.\<close>

definition terminate :: "dahua_mqtt \<times> shared \<Rightarrow> dahua_mqtt \<times> shared" where
  "terminate st =
     (case st of (self, sh) \<Rightarrow>
        (case proc self of
           None \<Rightarrow> (self, sh)
         | Some p \<Rightarrow>
             if is_alive p
             then (self\<lparr>own_kill_thread := Some True\<rparr>,
                   sh\<lparr>app_hass := hass_log LogKillingThread (app_hass sh)\<rparr>)
             else (self, sh)))"

subsection \<open>What the worker thread receives from pycurl and the clock\<close>

text \<open>
  One call of \<open>curl_multiobj.perform()\<close>: the write callbacks it makes (handle and
  data, in order), whether it returns \<open>E_CALL_MULTI_PERFORM\<close>, the number of running
  handles it returns, and what \<open>info_read()\<close> returns if it is called after it (finished
  handles; failed handles with error number and message).  The \<open>n\<close>-th call of
  \<open>time.time()\<close> returns \<open>clk n\<close>, a double, represented by the real number it denotes.
  \<open>Test\<close> is the thread evaluating the condition of the loop it is at; \<open>Terminate\<close> is the
  host calling \<open>terminate\<close> from its own thread, at any point between two steps of the
  worker.
\<close>

record perform_io =
  writes :: "(nat \<times> string) list"
  call_again :: bool
  num_handles :: nat
  done_ok :: "nat list"
  done_err :: "(nat \<times> int \<times> string) list"

datatype event = Test | Perform perform_io | Select int | Terminate

type_synonym clock = "nat \<Rightarrow> real"

text \<open>\<open>next(filter(lambda x: x.curlobj == curlobj, self.cameras))\<close>, as an index.\<close>

fun camera_index :: "nat \<Rightarrow> camera list \<Rightarrow> nat option" where
  "camera_index h [] = None"
| "camera_index h (c # cs) =
     (if curlobj c = Some h then Some 0 else map_option Suc (camera_index h cs))"

text \<open>A write callback is the \<open>on_receive\<close> of the camera that owns the handle.\<close>

definition deliver :: "nat \<times> string \<Rightarrow> shared \<Rightarrow> shared" where
  "deliver w sh =
     (case camera_index (fst w) (cameras sh) of
        None \<Rightarrow> sh
      | Some i \<Rightarrow>
          (case on_receive (snd w) (cameras sh ! i, app_hass sh) of (cam, hs) \<Rightarrow>
             sh\<lparr>cameras := (cameras sh)[i := cam], app_hass := hs\<rparr>))"

definition perform :: "perform_io \<Rightarrow> shared \<Rightarrow> shared" where
  "perform io sh = fold deliver (writes io) sh"

text \<open>Truth value of \<open>camera.reconnect\<close>: \<open>None\<close> and \<open>0.0\<close> are false.\<close>

definition truthy :: "real option \<Rightarrow> bool" where
  "truthy r = (case r of None \<Rightarrow> False | Some t \<Rightarrow> t \<noteq> 0)"

text \<open>
  A \<open>for\<close> loop whose body may raise: the first exception ends the loop, and the state
  reached so far stays.
\<close>

fun for_each :: "('a \<Rightarrow> 's \<Rightarrow> py_error option \<times> 's) \<Rightarrow> 'a list \<Rightarrow> 's \<Rightarrow> py_error option \<times> 's" where
  "for_each f [] s = (None, s)"
| "for_each f (x # xs) s =
     (case f x s of
        (Some e, s') \<Rightarrow> (Some e, s')
      | (None, s') \<Rightarrow> for_each f xs s')"

text \<open>
  Double-precision arithmetic.  \<open>time.time() + 5\<close> is the exact sum rounded to the nearest
  double, ties to the even significand.  For \<open>x > 0\<close>, \<open>binade x\<close> is the exponent \<open>e\<close> with
  \<open>2^e \<le> x < 2^(e+1)\<close>; the doubles of that binade are the multiples of \<open>2^(e-52)\<close>.
  The exponent range is not bounded: the result is the double nearest to \<open>x\<close> whenever
  \<open>2^(-1022) \<le> \<bar>x\<bar> < 2^1024\<close>, which holds for every clock reading plus 5.
\<close>

definition round_even :: "real \<Rightarrow> int" where
  "round_even x =
     (if x - of_int \<lfloor>x\<rfloor> < 1 / 2 then \<lfloor>x\<rfloor>
      else if 1 / 2 < x - of_int \<lfloor>x\<rfloor> then \<lfloor>x\<rfloor> + 1
      else if even \<lfloor>x\<rfloor> then \<lfloor>x\<rfloor> else \<lfloor>x\<rfloor> + 1)"

definition binade :: "real \<Rightarrow> int" where
  "binade x =
     (if 1 \<le> x then int (floorlog 2 (nat \<lfloor>x\<rfloor>)) - 1
      else - int (floorlog 2 (nat (\<lceil>1 / x\<rceil> - 1))))"

definition round_positive :: "real \<Rightarrow> real" where
  "round_positive x =
     of_int (round_even (x / 2 powi (binade x - 52))) * 2 powi (binade x - 52)"

definition round_double :: "real \<Rightarrow> real" where
  "round_double x =
     (if x = 0 then 0 else if 0 < x then round_positive x else - round_positive (- x))"

text \<open>
  The body of the two loops over finished and failed handles: find the camera, skip it
  when a deadline is pending, else \<open>on_disconnect\<close> and \<open>reconnect = time.time() + 5\<close>.
\<close>

definition handle_done :: "clock \<Rightarrow> nat \<Rightarrow> reason \<Rightarrow> shared \<Rightarrow> py_error option \<times> shared" where
  "handle_done clk h r sh =
     (case camera_index h (cameras sh) of
        None \<Rightarrow> (Some StopIteration, sh)
      | Some i \<Rightarrow>
          (let camera = cameras sh ! i in
           if truthy (reconnect camera) then (None, sh)
           else
             (case on_disconnect r (camera, app_hass sh) of (cam, hs) \<Rightarrow>
                (None,
                 sh\<lparr>cameras :=
                      (cameras sh)[i := cam\<lparr>reconnect := Some (round_double (clk (clock_reads sh) + 5))\<rparr>],
                    app_hass := hs,
                    clock_reads := clock_reads sh + 1\<rparr>))))"

text \<open>
  \<open>remove_handle\<close> and \<open>add_handle\<close> of the \<open>CurlMulti\<close> object: pycurl raises when the
  handle is not, respectively already, on the stack.
\<close>

definition remove_handle :: "nat \<Rightarrow> shared \<Rightarrow> py_error option \<times> shared" where
  "remove_handle h sh =
     (if h \<in> set (multi sh) then (None, sh\<lparr>multi := removeAll h (multi sh)\<rparr>)
      else (Some (CurlError ''curl object not on this multi-stack''), sh))"

definition add_handle :: "nat \<Rightarrow> shared \<Rightarrow> py_error option \<times> shared" where
  "add_handle h sh =
     (if h \<in> set (multi sh) then (Some (CurlError ''curl object already on this multi-stack''), sh)
      else (None, sh\<lparr>multi := multi sh @ [h]\<rparr>))"

text \<open>
  The body of the sweep over \<open>self.cameras\<close>, for the camera at index \<open>i\<close>.  The clock
  is read only when the deadline is true (\<open>and\<close> is short-circuit).
\<close>

definition sweep_camera :: "clock \<Rightarrow> nat \<Rightarrow> shared \<Rightarrow> py_error option \<times> shared" where
  "sweep_camera clk i sh =
     (let camera = cameras sh ! i in
      if \<not> truthy (reconnect camera) then (None, sh)
      else
        (let now = clk (clock_reads sh);
             sh1 = sh\<lparr>clock_reads := clock_reads sh + 1\<rparr>
         in if the (reconnect camera) < now then
              (case curlobj camera of
                 None \<Rightarrow> (Some (TypeError ''remove_handle''), sh1)
               | Some h \<Rightarrow>
                   (case remove_handle h sh1 of
                      (Some e, sh2) \<Rightarrow> (Some e, sh2)
                    | (None, sh2) \<Rightarrow>
                        (case add_handle h sh2 of
                           (Some e, sh3) \<Rightarrow> (Some e, sh3)
                         | (None, sh3) \<Rightarrow>
                             (None,
                              sh3\<lparr>cameras :=
                                     (cameras sh3)[i := (cameras sh3 ! i)\<lparr>reconnect := None\<rparr>]\<rparr>))))
            else (None, sh1)))"

text \<open>The block guarded by \<open>num_handles != self.num_curlobj\<close>.\<close>

definition reconcile :: "clock \<Rightarrow> perform_io \<Rightarrow> shared \<Rightarrow> py_error option \<times> shared" where
  "reconcile clk io sh =
     (case for_each (\<lambda>h. handle_done clk h (Success (done_err io))) (done_ok io) sh of
        (Some e, s1) \<Rightarrow> (Some e, s1)
      | (None, s1) \<Rightarrow>
          (case for_each (\<lambda>m. handle_done clk (fst m) (Failure (snd (snd m)) (fst (snd m))))
                  (done_err io) s1 of
             (Some e, s2) \<Rightarrow> (Some e, s2)
           | (None, s2) \<Rightarrow> for_each (sweep_camera clk) [0..<length (cameras s2)] s2))"

text \<open>
  Attribute lookup on the application object.  \<open>base\<close> lists the attribute names that the
  framework class \<open>hass.Hass\<close> provides; that class is not part of this program.  A call
  of an inherited method other than \<open>log\<close> is taken to return without touching the state
  modelled here.
\<close>

definition own_attributes :: "string list" where
  "own_attributes =
     [''proc'', ''cameras'', ''curl_multiobj'', ''num_curlobj'', ''kill_thread'',
      ''initialize'', ''terminate'', ''thread_process'']"

definition resolves :: "string list \<Rightarrow> string \<Rightarrow> bool" where
  "resolves base name = (name \<in> set own_attributes \<or> name \<in> set base)"

text \<open>
  \<open>thread_process\<close>, one step at a time.  At the head of a loop the step is the test of
  \<open>kill_thread\<close> (event \<open>Test\<close>): it opens the call that follows, or leaves the loop.  Inside
  a call the step is its return: \<open>Perform\<close> for \<open>curl_multiobj.perform()\<close>, \<open>Select\<close> for
  \<open>curl_multiobj.select(0.1)\<close>, followed by the rest of the loop body up to the next loop
  head; the flag is not read between the test and that point.  \<open>Thread exited\<close> is logged
  when the second loop is left.  An exception that nothing catches ends the thread.  An
  event the thread is not waiting for is not consumed.
\<close>

definition thread_step ::
    "string list \<Rightarrow> clock \<Rightarrow> event \<Rightarrow> dahua_mqtt \<times> shared \<Rightarrow> dahua_mqtt \<times> shared" where
  "thread_step base clk ev st =
     (case st of (self, sh) \<Rightarrow>
        (case proc self of
           None \<Rightarrow> (self, sh)
         | Some p \<Rightarrow>
             (case (p, ev) of
                (Loop1, Test) \<Rightarrow>
                  (self\<lparr>proc := Some (if kill_thread self sh then Loop2 else In_perform1)\<rparr>, sh)
              | (In_perform1, Perform io) \<Rightarrow>
                  (self\<lparr>proc := Some (if call_again io then Loop1 else Loop2)\<rparr>, perform io sh)
              | (Loop2, Test) \<Rightarrow>
                  if kill_thread self sh then
                    (self\<lparr>proc := Some Exited\<rparr>,
                     sh\<lparr>app_hass := hass_log LogThreadExited (app_hass sh)\<rparr>)
                  else (self\<lparr>proc := Some In_select\<rparr>, sh)
              | (In_select, Select ret) \<Rightarrow>
                  if ret = - 1 then
                    (if resolves base ''on_timer'' then (self\<lparr>proc := Some Loop2\<rparr>, sh)
                     else (self\<lparr>proc := Some (Died (AttributeError ''on_timer''))\<rparr>, sh))
                  else (self\<lparr>proc := Some Loop3\<rparr>, sh)
              | (Loop3, Test) \<Rightarrow>
                  (self\<lparr>proc := Some (if kill_thread self sh then Loop2 else In_perform3)\<rparr>, sh)
              | (In_perform3, Perform io) \<Rightarrow>
                  (let sh1 = perform io sh in
                   (case (if num_handles io \<noteq> num_curlobj self sh1 then reconcile clk io sh1
                          else (None, sh1)) of
                      (Some e, sh2) \<Rightarrow> (self\<lparr>proc := Some (Died e)\<rparr>, sh2)
                    | (None, sh2) \<Rightarrow>
                        (self\<lparr>proc := Some (if call_again io then Loop3 else Loop2)\<rparr>, sh2)))
              | _ \<Rightarrow> (self, sh))))"

text \<open>The application driven by a sequence of events.\<close>

definition app_step ::
    "string list \<Rightarrow> clock \<Rightarrow> event \<Rightarrow> dahua_mqtt \<times> shared \<Rightarrow> dahua_mqtt \<times> shared" where
  "app_step base clk ev st = (case ev of Terminate \<Rightarrow> terminate st | _ \<Rightarrow> thread_step base clk ev st)"

definition run :: "string list \<Rightarrow> clock \<Rightarrow> event list \<Rightarrow> dahua_mqtt \<times> shared \<Rightarrow> dahua_mqtt \<times> shared" where
  "run base clk evs st = fold (app_step base clk) evs st"

text \<open>
  The phases of the specification, read off a camera object between two loop
  iterations: a true deadline is \<open>PendingReconnect\<close>; otherwise the camera is \<open>Streaming\<close>
  once the status line has been seen and \<open>Connecting\<close> before.  (\<open>Disconnected\<close> is passed
  through inside one iteration.)
\<close>

datatype phase = Connecting | Streaming | Disconnected | PendingReconnect

definition spec_phase :: "camera \<Rightarrow> phase" where
  "spec_phase cam =
     (if truthy (reconnect cam) then PendingReconnect
      else if connected cam = Some True then Streaming
      else Connecting)"

section \<open>Example objects\<close>

text \<open>
  The first camera of the example configuration in the module's documentation, with
  the handle 0, and a host application on which nothing has been logged or published.
\<close>

definition example_config :: config where
  "example_config =
     \<lparr>host = ''192.168.0.1'', topic = ''cameras/1'',
      events = ''VideoMotion,VideoBlind,VideoLoss,AlarmLocal''\<rparr>"

definition example_camera :: camera where
  "example_camera =
     \<lparr>cfg = example_config, curlobj = Some 0, connected = None, reconnect = None\<rparr>"

definition no_effects :: hass where
  "no_effects = \<lparr>logs = [], published = []\<rparr>"

text \<open>
  A second camera, and two application instances started one after the other on the
  class as it is after import: the first with the example camera, the second with the
  second camera.  \<open>first_stopped\<close> is the state after \<open>terminate\<close> on the first instance.
\<close>

definition second_config :: config where
  "second_config =
     \<lparr>host = ''192.168.0.2'', topic = ''cameras/2'',
      events = ''VideoMotion,VideoBlind,VideoLoss,AlarmLocal''\<rparr>"

definition first_started :: "dahua_mqtt \<times> shared" where
  "first_started = initialize (new_instance [example_config], fresh_shared)"

definition second_started :: "dahua_mqtt \<times> shared" where
  "second_started = initialize (new_instance [second_config], snd first_started)"

definition first_stopped :: "dahua_mqtt \<times> shared" where
  "first_stopped = terminate (fst first_started, snd second_started)"

text \<open>
  A clock that starts at 100 and advances by one second per reading, the attribute
  names of a framework class that offers \<open>log\<close> and \<open>call_service\<close>, and a run of the
  first instance in which the camera's transfer fails with error 7.
\<close>

definition example_clock :: clock where
  "example_clock n = 100 + real n"

definition example_base :: "string list" where
  "example_base = [''log'', ''call_service'']"

definition quiet_io :: perform_io where
  "quiet_io = \<lparr>writes = [], call_again = False, num_handles = 1, done_ok = [], done_err = []\<rparr>"

definition failed_io :: perform_io where
  "failed_io =
     \<lparr>writes = [], call_again = False, num_handles = 0, done_ok = [],
      done_err = [(0, 7, ''Failed to connect'')]\<rparr>"

definition after_failure :: "dahua_mqtt \<times> shared" where
  "after_failure =
     run example_base example_clock
       [Test, Perform quiet_io, Test, Select 0, Test, Perform failed_io] first_started"

definition at_select :: "dahua_mqtt \<times> shared" where
  "at_select = run example_base example_clock [Test, Perform quiet_io, Test] first_started"

text \<open>
  A clock whose third reading falls exactly on the deadline of a failure handled at the
  first reading, a \<open>perform\<close> that reports nothing new while the transfer is down, the
  first instance after the failure and the first sweep (\<open>pending_run\<close>), and after one more
  iteration, whose sweep reads the clock at the deadline (\<open>at_deadline_run\<close>).
\<close>

definition deadline_clock :: clock where
  "deadline_clock n = (if n = 0 then 100 else if n = 1 then 101 else if n = 2 then 105 else 106)"

definition idle_io :: perform_io where
  "idle_io = \<lparr>writes = [], call_again = False, num_handles = 0, done_ok = [], done_err = []\<rparr>"

definition pending_run :: "dahua_mqtt \<times> shared" where
  "pending_run =
     run example_base deadline_clock
       [Test, Perform quiet_io, Test, Select 0, Test, Perform failed_io] first_started"

definition at_deadline_run :: "dahua_mqtt \<times> shared" where
  "at_deadline_run =
     run example_base deadline_clock [Test, Select 0, Test, Perform idle_io] pending_run"

text \<open>
  What every loop iteration keeps of the shared state: each camera's handle is on the
  \<open>CurlMulti\<close> stack, and no stored deadline is \<open>0.0\<close>.
\<close>

definition loop_invariant :: "shared \<Rightarrow> bool" where
  "loop_invariant sh =
     (\<forall>cam\<in>set (cameras sh).
        (\<exists>h. curlobj cam = Some h \<and> h \<in> set (multi sh)) \<and> reconnect cam \<noteq> Some 0)"

section \<open>Properties of the text primitives\<close>

lemma utf8_len_le: "utf8_len bs \<le> length bs"
  by (cases bs) (auto simp: Let_def split: list.splits)

lemma utf8_len_append_ascii:
  "a \<noteq> [] \<Longrightarrow> byte c < 128 \<Longrightarrow> utf8_len (a @ c # b) = utf8_len a"
  by (cases a) (auto simp: Let_def in_range_def split: list.splits)

lemma code_points_step:
  assumes "utf8_len l \<noteq> 0"
  shows "code_points l = take (utf8_len l) l # code_points (drop (utf8_len l) l)"
proof (cases l)
  case Nil
  with assms show ?thesis by simp
next
  case (Cons x xs)
  with assms show ?thesis by (simp del: utf8_len.simps)
qed

lemma code_points_append_ascii:
  "byte c < 128 \<Longrightarrow> code_points (a @ c # b) = code_points a @ [c] # code_points b"
proof (induction a rule: code_points.induct)
  case 1
  then show ?case by (simp add: Let_def)
next
  case (2 x xs)
  define l where "l = x # xs"
  have len: "utf8_len (l @ c # b) = utf8_len l"
    using 2 unfolding l_def by (intro utf8_len_append_ascii) simp_all
  show ?case
  proof (cases "utf8_len l = 0")
    case True
    then show ?thesis
      using 2 len unfolding l_def by (simp del: utf8_len.simps)
  next
    case False
    have le: "utf8_len l \<le> length l" by (rule utf8_len_le)
    from False 2 have ih: "code_points (drop (utf8_len l) l @ c # b) =
        code_points (drop (utf8_len l) l) @ [c] # code_points b"
      unfolding l_def by blast
    have "code_points (l @ c # b) =
       take (utf8_len l) (l @ c # b) # code_points (drop (utf8_len l) (l @ c # b))"
      using False len code_points_step [of "l @ c # b"] by simp
    also have "\<dots> = take (utf8_len l) l # code_points (drop (utf8_len l) l @ c # b)"
      using le by simp
    also have "\<dots> = code_points l @ [c] # code_points b"
      using ih False code_points_step [of l] by simp
    finally show ?thesis
      unfolding l_def .
  qed
qed

lemma decode_append_CRLF: "decode (a @ CRLF @ b) = decode a @ CRLF @ decode b"
proof -
  have cr: "byte CR < 128" and lf: "byte LF < 128"
    by (simp_all add: byte_def CR_def LF_def)
  have "code_points (a @ CR # LF # b) = code_points a @ [CR] # code_points (LF # b)"
    using cr by (rule code_points_append_ascii)
  moreover have "code_points (LF # b) = [LF] # code_points b"
    using code_points_append_ascii [OF lf, of "[]" b] by simp
  ultimately show ?thesis
    by (simp add: decode_def CRLF_def)
qed

lemma py_split_nonempty: "py_split sep s \<noteq> []"
  by (induction sep s rule: py_split.induct) (auto split: list.splits elim: push.elims)

lemma push_append: "ls \<noteq> [] \<Longrightarrow> push c (ls @ ms) = push c ls @ ms"
  by (cases ls) simp_all

lemma py_split_CRLF_append:
  "py_split CRLF (a @ CRLF @ b) = py_split CRLF a @ py_split CRLF b"
proof (induction "CRLF" a rule: py_split.induct)
  case 1
  show ?case by (simp add: CRLF_def)
next
  case (2 c cs)
  show ?case
  proof (cases "prefix CRLF (c # cs)")
    case True
    then obtain r where r: "c # cs = CR # LF # r"
      by (auto simp: CRLF_def prefix_def)
    with 2 True show ?thesis by (simp add: CRLF_def)
  next
    case False
    then have "\<not> prefix CRLF ((c # cs) @ CRLF @ b)"
      by (cases cs) (auto simp: CRLF_def CR_def LF_def)
    with False 2 show ?thesis
      by (simp add: push_append py_split_nonempty)
  qed
qed

section \<open>Parsing, filtering and publishing\<close>

lemma handle_line_empty: "handle_line [] st = st"
  by (simp add: handle_line_def)

lemma on_receive_append:
  "on_receive (a @ CRLF @ b) st = on_receive b (on_receive a st)"
  by (simp add: on_receive_def decode_append_CRLF py_split_CRLF_append)

lemma on_receive_terminated: "on_receive (a @ CRLF) st = on_receive a st"
  using on_receive_append [of a "[]" st]
  by (simp add: on_receive_def decode_def handle_line_empty)

lemma on_receive_leading_terminator: "on_receive (CRLF @ b) st = on_receive b st"
  using on_receive_append [of "[]" b st]
  by (simp add: on_receive_def decode_def handle_line_empty)

text \<open>
  Claim C1, as amended.  \<open>on_receive\<close> keeps no pending buffer: every call parses its
  chunk on its own.  Delivering a chunk in two pieces gives the same result as
  delivering it whole when the break falls immediately after or immediately before a
  line terminator.
\<close>

theorem on_receive_split_at_terminator:
  "on_receive b (on_receive (a @ CRLF) st) = on_receive (a @ CRLF @ b) st \<and>
   on_receive (CRLF @ b) (on_receive a st) = on_receive (a @ CRLF @ b) st"
  by (simp add: on_receive_append on_receive_terminated on_receive_leading_terminator)

text \<open>
  Claim C1 as stated fails: the line \<open>Code=VideoMotion;action=Start\<close> broken after
  \<open>Code=Video\<close> publishes nothing (the first piece is an event with the code \<open>Video\<close>,
  which the camera does not forward; the second piece does not begin with the marker),
  while the whole line publishes twice.
\<close>

theorem partial_line_not_buffered:
  "published (snd (on_receive ''Motion;action=Start'' (on_receive ''Code=Video'' (example_camera, no_effects)))) = [] \<and>
   published (snd (on_receive (''Code=Video'' @ ''Motion;action=Start'') (example_camera, no_effects))) =
     [(''cameras/1'', json_dumps [(''code'', ''VideoMotion''), (''action'', ''Start'')]),
      (''cameras/1VideoMotion'', ''Start'')]"
  by code_simp

text \<open>
  Claim C2 at the example configuration of the module's documentation (topic
  \<open>cameras/1\<close>): the event topic is the camera topic immediately followed by the code,
  \<open>cameras/1VideoMotion\<close>, with no separator between them.
\<close>

theorem on_alarm_concatenates_topic_and_code:
  "published (snd (on_receive (''Code=VideoMotion;action=Start;index=0'' @ CRLF) (example_camera, no_effects))) =
     [(''cameras/1'', json_dumps [(''code'', ''VideoMotion''), (''action'', ''Start''), (''index'', ''0'')]),
      (''cameras/1VideoMotion'', ''Start'')]"
  by code_simp

lemma published_publish:
  "published (publish c item h) = published h @ [(py_strip_slash (fst item), snd item)]"
  by (simp add: publish_def hass_log_def Let_def)

text \<open>
  Claim C10, as amended.  \<open>on_alarm\<close> on a record that has a code.  Without an action
  the dictionary display raises \<open>KeyError\<close> before anything is published.  With an action
  and an empty code the two keys of \<open>mqtt_data\<close> are equal and a single call is issued
  (the camera topic, with the action as payload); with an action and a code that is not
  empty two calls are issued.
\<close>

theorem on_alarm_publish_calls:
  assumes "dict_get state ''code'' = Inr code"
  shows "(case dict_get state ''action'' of
            Inl e \<Rightarrow> on_alarm cam state h = Inl (KeyError ''action'')
          | Inr action \<Rightarrow>
              (\<exists>h'. on_alarm cam state h = Inr h' \<and>
                 published h' = published h @
                   (if code = [] then [(py_strip_slash (topic (cfg cam)), action)]
                    else [(py_strip_slash (topic (cfg cam)), json_dumps state),
                          (py_strip_slash (topic (cfg cam) @ code), action)])))"
  using assms
  by (auto simp: on_alarm_def published_publish dict_get_def split: sum.splits option.splits)

text \<open>The three cases of C10 on the example camera.\<close>

theorem on_alarm_publish_calls_witness:
  "dict_get [(''code'', ''VideoMotion'')] ''code'' = Inr ''VideoMotion'' \<and>
   on_alarm example_camera [(''code'', ''VideoMotion'')] no_effects = Inl (KeyError ''action'') \<and>
   dict_get [(''code'', ''''), (''action'', ''Start'')] ''code'' = Inr '''' \<and>
   (\<exists>h'. on_alarm example_camera [(''code'', ''''), (''action'', ''Start'')] no_effects = Inr h' \<and>
     published h' = [(''cameras/1'', ''Start'')]) \<and>
   dict_get [(''code'', ''VideoMotion''), (''action'', ''Start'')] ''code'' = Inr ''VideoMotion'' \<and>
   (\<exists>h'. on_alarm example_camera [(''code'', ''VideoMotion''), (''action'', ''Start'')] no_effects = Inr h' \<and>
     published h' = [(''cameras/1'', json_dumps [(''code'', ''VideoMotion''), (''action'', ''Start'')]),
                     (''cameras/1VideoMotion'', ''Start'')])"
proof -
  have c0: "dict_get [(''code'', ''VideoMotion'')] ''code'' = Inr ''VideoMotion''"
    and a0: "dict_get [(''code'', ''VideoMotion'')] ''action'' = Inl (KeyError ''action'')"
    and c1: "dict_get [(''code'', ''''), (''action'', ''Start'')] ''code'' = Inr ''''"
    and a1: "dict_get [(''code'', ''''), (''action'', ''Start'')] ''action'' = Inr ''Start''"
    and c2: "dict_get [(''code'', ''VideoMotion''), (''action'', ''Start'')] ''code'' = Inr ''VideoMotion''"
    and a2: "dict_get [(''code'', ''VideoMotion''), (''action'', ''Start'')] ''action'' = Inr ''Start''"
    by (simp_all add: dict_get_def)
  have s1: "py_strip_slash ''cameras/1'' = ''cameras/1''"
    and s2: "py_strip_slash ''cameras/1VideoMotion'' = ''cameras/1VideoMotion''"
    by (simp_all add: py_strip_slash_def)
  have t0: "on_alarm example_camera [(''code'', ''VideoMotion'')] no_effects = Inl (KeyError ''action'')"
    using on_alarm_publish_calls [OF c0, of example_camera no_effects] a0 by simp
  have t1: "\<exists>h'. on_alarm example_camera [(''code'', ''''), (''action'', ''Start'')] no_effects = Inr h' \<and>
     published h' = [(''cameras/1'', ''Start'')]"
    using on_alarm_publish_calls [OF c1, of example_camera no_effects] a1 s1
    by (simp add: example_camera_def example_config_def no_effects_def)
  have t2: "\<exists>h'. on_alarm example_camera [(''code'', ''VideoMotion''), (''action'', ''Start'')] no_effects = Inr h' \<and>
     published h' = [(''cameras/1'', json_dumps [(''code'', ''VideoMotion''), (''action'', ''Start'')]),
                     (''cameras/1VideoMotion'', ''Start'')]"
    using on_alarm_publish_calls [OF c2, of example_camera no_effects] a2 s1 s2
    by (simp add: example_camera_def example_config_def no_effects_def)
  from c0 t0 c1 t1 c2 t2 show ?thesis
    by blast
qed

text \<open>
  Claim C10 as stated fails for a record without an action: the line \<open>Code=VideoMotion\<close>
  gives a record with the code \<open>VideoMotion\<close>, which the example camera forwards, and
  no publish call is issued; the \<open>KeyError\<close> is logged by \<open>on_receive\<close>.
\<close>

theorem accepted_event_without_action:
  "dict_get [(''code'', ''VideoMotion'')] ''code'' = Inr ''VideoMotion'' \<and>
   ''VideoMotion'' \<in> set (py_split '','' (events (cfg example_camera))) \<and>
   parse_event example_camera [(''code'', ''VideoMotion'')] no_effects = Inl (KeyError ''action'') \<and>
   on_receive (''Code=VideoMotion'' @ CRLF) (example_camera, no_effects) =
     (example_camera, \<lparr>logs = [LogFailedToParse (KeyError ''action'')], published = []\<rparr>)"
  by code_simp

lemma push_hd: "xs \<noteq> [] \<Longrightarrow> push c xs = (c # hd xs) # tl xs"
  by (cases xs) simp_all

lemma split_semicolon_marker:
  "\<exists>x segs. py_split '';'' (''Code='' @ rest) = (''Code='' @ x) # segs"
proof -
  have ne: "py_split '';'' rest \<noteq> []"
    by (rule py_split_nonempty)
  have "py_split '';'' (''Code='' @ rest) =
      (''Code='' @ hd (py_split '';'' rest)) # tl (py_split '';'' rest)"
    using ne by (simp add: push_hd)
  then show ?thesis by blast
qed

lemma split_equals_marker:
  "py_split ''='' (''Code='' @ x) = ''Code'' # py_split ''='' x"
  by simp

lemma dict_set_keys: "fst ` set (dict_set d k v) = insert k (fst ` set d)"
  by (induction d k v rule: dict_set.induct) auto

lemma build_alarm_keys:
  "build_alarm segs d = Inr a \<Longrightarrow> k \<in> fst ` set d \<Longrightarrow> k \<in> fst ` set a"
proof (induction segs arbitrary: d)
  case Nil
  then show ?case by simp
next
  case (Cons seg segs)
  from Cons.prems(1) obtain key val where u: "unpack2 (py_split ''='' seg) = Inr (key, val)"
    and b: "build_alarm segs (dict_set d (py_lower key) val) = Inr a"
    by (auto split: sum.splits)
  from Cons.prems(2) have "k \<in> fst ` set (dict_set d (py_lower key) val)"
    by (simp add: dict_set_keys)
  with Cons.IH [OF b] show ?case .
qed

lemma event_line_has_code:
  assumes "prefix ''Code='' line" and "build_alarm (py_split '';'' line) [] = Inr alarm"
  shows "\<exists>code. dict_get alarm ''code'' = Inr code"
proof -
  from assms(1) obtain rest where line: "line = ''Code='' @ rest"
    by (auto simp: prefix_def)
  from split_semicolon_marker [of rest] obtain x segs
    where segs: "py_split '';'' line = (''Code='' @ x) # segs"
    unfolding line by blast
  from assms(2) segs obtain key val
    where u: "unpack2 (py_split ''='' (''Code='' @ x)) = Inr (key, val)"
      and b: "build_alarm segs (dict_set [] (py_lower key) val) = Inr alarm"
    by (auto split: sum.splits)
  from u have "key = ''Code''"
    unfolding split_equals_marker by (auto simp: unpack2_def split: list.splits if_splits)
  then have "py_lower key = ''code''"
    by (simp add: py_lower_def lower_char_def)
  with b have "''code'' \<in> fst ` set alarm"
    by (intro build_alarm_keys [OF b]) simp
  then obtain v where "map_of alarm ''code'' = Some v"
    by (metis domD dom_map_of_conv_image_fst)
  then show ?thesis
    by (simp add: dict_get_def)
qed

text \<open>
  Claim C3.  A record parsed from an event line has a code.  It is passed to \<open>on_alarm\<close>
  if and only if that code is equal to one of the comma-separated entries of the
  camera's \<open>events\<close>; a record that is not passed on leaves the camera and the host
  application (log and publish calls) as they were.
\<close>

theorem filter_by_whitelist:
  assumes "prefix ''Code='' line"
    and "build_alarm (py_split '';'' line) [] = Inr alarm"
  shows "\<exists>code. dict_get alarm ''code'' = Inr code \<and>
           parse_event cam alarm h =
             (if code \<in> set (py_split '','' (events (cfg cam))) then on_alarm cam alarm h
              else Inr h) \<and>
           handle_line line (cam, h) =
             (if code \<in> set (py_split '','' (events (cfg cam)))
              then (case on_alarm cam alarm h of
                      Inl e \<Rightarrow> (cam, hass_log (LogFailedToParse e) h)
                    | Inr h' \<Rightarrow> (cam, h'))
              else (cam, h))"
proof -
  from event_line_has_code [OF assms] obtain code where c: "dict_get alarm ''code'' = Inr code"
    by blast
  from assms(1) have "line \<noteq> ''HTTP/1.1 200 OK''"
    by auto
  with assms c have "parse_event cam alarm h =
             (if code \<in> set (py_split '','' (events (cfg cam))) then on_alarm cam alarm h
              else Inr h) \<and>
           handle_line line (cam, h) =
             (if code \<in> set (py_split '','' (events (cfg cam)))
              then (case on_alarm cam alarm h of
                      Inl e \<Rightarrow> (cam, hass_log (LogFailedToParse e) h)
                    | Inr h' \<Rightarrow> (cam, h'))
              else (cam, h))"
    by (simp add: parse_event_def handle_line_def Let_def split: sum.splits)
  with c show ?thesis
    by blast
qed

text \<open>
  C3 on the line of the specification: dropped by a camera that forwards only
  \<open>VideoBlind\<close>, published by the example camera.
\<close>

theorem filter_by_whitelist_witness:
  "prefix ''Code='' ''Code=VideoMotion;action=Start;index=0'' \<and>
   build_alarm (py_split '';'' ''Code=VideoMotion;action=Start;index=0'') [] =
     Inr [(''code'', ''VideoMotion''), (''action'', ''Start''), (''index'', ''0'')] \<and>
   dict_get [(''code'', ''VideoMotion''), (''action'', ''Start''), (''index'', ''0'')] ''code'' =
     Inr ''VideoMotion'' \<and>
   handle_line ''Code=VideoMotion;action=Start;index=0''
     (example_camera\<lparr>cfg := example_config\<lparr>events := ''VideoBlind''\<rparr>\<rparr>, no_effects) =
     (example_camera\<lparr>cfg := example_config\<lparr>events := ''VideoBlind''\<rparr>\<rparr>, no_effects) \<and>
   published (snd (handle_line ''Code=VideoMotion;action=Start;index=0''
     (example_camera, no_effects))) =
     [(''cameras/1'',
       json_dumps [(''code'', ''VideoMotion''), (''action'', ''Start''), (''index'', ''0'')]),
      (''cameras/1VideoMotion'', ''Start'')]"
proof -
  let ?line = "''Code=VideoMotion;action=Start;index=0''"
  let ?alarm = "[(''code'', ''VideoMotion''), (''action'', ''Start''), (''index'', ''0'')]"
  let ?blind = "example_camera\<lparr>cfg := example_config\<lparr>events := ''VideoBlind''\<rparr>\<rparr>"
  have p: "prefix ''Code='' ?line"
    by simp
  have b: "build_alarm (py_split '';'' ?line) [] = Inr ?alarm"
    by code_simp
  have c: "dict_get ?alarm ''code'' = Inr ''VideoMotion''"
    by (simp add: dict_get_def)
  have out: "''VideoMotion'' \<notin> set (py_split '','' (events (cfg ?blind)))"
    by (simp add: example_camera_def example_config_def)
  have inn: "''VideoMotion'' \<in> set (py_split '','' (events (cfg example_camera)))"
    by (simp add: example_camera_def example_config_def)
  have rejected: "handle_line ?line (?blind, no_effects) = (?blind, no_effects)"
    using filter_by_whitelist [OF p b, of ?blind no_effects] c out by auto
  have "handle_line ?line (example_camera, no_effects) =
      (case on_alarm example_camera ?alarm no_effects of
         Inl e \<Rightarrow> (example_camera, hass_log (LogFailedToParse e) no_effects)
       | Inr h' \<Rightarrow> (example_camera, h'))"
    using filter_by_whitelist [OF p b, of example_camera no_effects] c inn by auto
  moreover have "published (snd (case on_alarm example_camera ?alarm no_effects of
         Inl e \<Rightarrow> (example_camera, hass_log (LogFailedToParse e) no_effects)
       | Inr h' \<Rightarrow> (example_camera, h'))) =
     [(''cameras/1'', json_dumps ?alarm), (''cameras/1VideoMotion'', ''Start'')]"
    by (simp add: on_alarm_def dict_get_def published_publish py_strip_slash_def
        example_camera_def example_config_def no_effects_def)
  ultimately have accepted: "published (snd (handle_line ?line (example_camera, no_effects))) =
     [(''cameras/1'', json_dumps ?alarm), (''cameras/1VideoMotion'', ''Start'')]"
    by simp
  from p b c rejected accepted show ?thesis
    by blast
qed

lemma unpack2_Inr: "(\<exists>kv. unpack2 parts = Inr kv) \<longleftrightarrow> length parts = 2"
  by (auto simp: unpack2_def split: list.splits)

lemma unpack2_Inl:
  "parts \<noteq> [] \<Longrightarrow> unpack2 parts = Inl e \<Longrightarrow> e \<in> {ValueError_not_enough 1, ValueError_too_many}"
  by (auto simp: unpack2_def split: list.splits if_splits)

lemma build_alarm_malformed:
  "\<exists>seg\<in>set segs. length (py_split ''='' seg) \<noteq> 2 \<Longrightarrow>
   \<exists>e\<in>{ValueError_not_enough 1, ValueError_too_many}. build_alarm segs d = Inl e"
proof (induction segs arbitrary: d)
  case Nil
  then show ?case by simp
next
  case (Cons seg segs)
  show ?case
  proof (cases "unpack2 (py_split ''='' seg)")
    case (Inl e)
    with unpack2_Inl [OF py_split_nonempty Inl] show ?thesis
      by auto
  next
    case (Inr kv)
    then have "length (py_split ''='' seg) = 2"
      using unpack2_Inr by blast
    with Cons.prems have "\<exists>s\<in>set segs. length (py_split ''='' s) \<noteq> 2"
      by auto
    from Cons.IH [OF this] Inr show ?thesis
      by (auto split: prod.splits)
  qed
qed

text \<open>
  Claim C4.  Wherever a chunk holds a line that begins with \<open>Code=\<close> and has a segment
  that does not split at \<open>=\<close> into exactly two parts, the whole effect of that line is
  one \<open>Failed to parse\<close> log entry (a \<open>ValueError\<close>); the lines before it and after it
  are handled as usual.
\<close>

theorem malformed_line_logged_and_skipped:
  assumes "py_split CRLF (decode chunk) = before @ line # after"
    and "prefix ''Code='' line"
    and "\<exists>seg\<in>set (py_split '';'' line). length (py_split ''='' seg) \<noteq> 2"
  shows "\<exists>e\<in>{ValueError_not_enough 1, ValueError_too_many}.
     on_receive chunk st =
       fold handle_line after
         (case fold handle_line before st of
            (cam, h) \<Rightarrow> (cam, hass_log (LogFailedToParse e) h))"
proof -
  from build_alarm_malformed [OF assms(3)]
  obtain e where e: "e \<in> {ValueError_not_enough 1, ValueError_too_many}"
    and b: "build_alarm (py_split '';'' line) [] = Inl e"
    by blast
  from assms(2) have "line \<noteq> ''HTTP/1.1 200 OK''"
    by auto
  with assms(2) b have "handle_line line s = (case s of (cam, h) \<Rightarrow> (cam, hass_log (LogFailedToParse e) h))"
    for s
    by (cases s) (simp add: handle_line_def Let_def)
  then have "on_receive chunk st =
       fold handle_line after
         (case fold handle_line before st of
            (cam, h) \<Rightarrow> (cam, hass_log (LogFailedToParse e) h))"
    using assms(1) by (simp add: on_receive_def)
  with e show ?thesis
    by blast
qed

text \<open>
  C4 on the chunk of the specification: the bad line is logged, the line after it is
  published.
\<close>

theorem malformed_line_logged_and_skipped_witness:
  "py_split CRLF (decode (''Code=Foo;badpair'' @ CRLF @ ''Code=VideoMotion;action=Start''))
     = [] @ ''Code=Foo;badpair'' # [''Code=VideoMotion;action=Start''] \<and>
   prefix ''Code='' ''Code=Foo;badpair'' \<and>
   (\<exists>seg\<in>set (py_split '';'' ''Code=Foo;badpair''). length (py_split ''='' seg) \<noteq> 2) \<and>
   on_receive (''Code=Foo;badpair'' @ CRLF @ ''Code=VideoMotion;action=Start'')
       (example_camera, no_effects) =
     (example_camera,
      \<lparr>logs = [LogFailedToParse (ValueError_not_enough 1),
               LogPublishing ''192.168.0.1'' ''cameras/1''
                 (json_dumps [(''code'', ''VideoMotion''), (''action'', ''Start'')]),
               LogPublishing ''192.168.0.1'' ''cameras/1VideoMotion'' ''Start''],
       published = [(''cameras/1'', json_dumps [(''code'', ''VideoMotion''), (''action'', ''Start'')]),
                    (''cameras/1VideoMotion'', ''Start'')]\<rparr>)"
proof -
  let ?chunk = "''Code=Foo;badpair'' @ CRLF @ ''Code=VideoMotion;action=Start''"
  let ?good = "''Code=VideoMotion;action=Start''"
  have l: "py_split CRLF (decode ?chunk) = [] @ ''Code=Foo;badpair'' # [?good]"
    by code_simp
  have p: "prefix ''Code='' ''Code=Foo;badpair''"
    by simp
  have m: "\<exists>seg\<in>set (py_split '';'' ''Code=Foo;badpair''). length (py_split ''='' seg) \<noteq> 2"
    by simp
  have good: "fold handle_line [?good] (example_camera, hass_log (LogFailedToParse e) no_effects) =
     (example_camera,
      \<lparr>logs = [LogFailedToParse e,
               LogPublishing ''192.168.0.1'' ''cameras/1''
                 (json_dumps [(''code'', ''VideoMotion''), (''action'', ''Start'')]),
               LogPublishing ''192.168.0.1'' ''cameras/1VideoMotion'' ''Start''],
       published = [(''cameras/1'', json_dumps [(''code'', ''VideoMotion''), (''action'', ''Start'')]),
                    (''cameras/1VideoMotion'', ''Start'')]\<rparr>)" for e
    by (simp add: handle_line_def unpack2_def py_lower_def lower_char_def parse_event_def
        dict_get_def on_alarm_def publish_def hass_log_def py_strip_slash_def Let_def
        example_camera_def example_config_def no_effects_def)
  from malformed_line_logged_and_skipped [OF l p m, of "(example_camera, no_effects)"]
  obtain e where e: "e \<in> {ValueError_not_enough 1, ValueError_too_many}"
    and r: "on_receive ?chunk (example_camera, no_effects) =
       fold handle_line [?good] (example_camera, hass_log (LogFailedToParse e) no_effects)"
    by auto
  have direct: "on_receive ?chunk (example_camera, no_effects) =
       fold handle_line [?good]
         (example_camera, hass_log (LogFailedToParse (ValueError_not_enough 1)) no_effects)"
    using l by (simp add: on_receive_def handle_line_def unpack2_def py_lower_def Let_def)
  from r good [of e]
  have "logs (snd (on_receive ?chunk (example_camera, no_effects))) ! 0 = LogFailedToParse e"
    by simp
  moreover from direct good [of "ValueError_not_enough 1"]
  have "logs (snd (on_receive ?chunk (example_camera, no_effects))) ! 0 =
      LogFailedToParse (ValueError_not_enough 1)"
    by simp
  ultimately have "e = ValueError_not_enough 1"
    by simp
  with r good [of e] l p m show ?thesis
    by simp
qed

section \<open>Double rounding\<close>

lemma round_even_ge_floor: "\<lfloor>x\<rfloor> \<le> round_even x"
  by (simp add: round_even_def)

lemma binade_le:
  assumes "1 \<le> x"
  shows "2 powi binade x \<le> x"
proof -
  let ?n = "nat \<lfloor>x\<rfloor>"
  from assms have n: "0 < ?n"
    by simp
  from floorlog_bounds [OF n, of 2] have b: "2 ^ (floorlog 2 ?n - 1) \<le> ?n"
    by simp
  from n have "0 < floorlog 2 ?n"
    by (simp add: floorlog_def)
  then have "binade x = int (floorlog 2 ?n - 1)"
    using assms by (simp add: binade_def)
  then have "2 powi binade x = (2 :: real) ^ (floorlog 2 ?n - 1)"
    by simp
  also have "\<dots> = real (2 ^ (floorlog 2 ?n - 1))"
    by simp
  also have "\<dots> \<le> real ?n"
    using b by (simp only: of_nat_le_iff)
  also have "\<dots> \<le> x"
    using assms by simp
  finally show ?thesis .
qed

lemma round_double_pos:
  assumes "1 \<le> x"
  shows "0 < round_double x"
proof -
  let ?u = "(2 :: real) powi (binade x - 52)"
  have u: "0 < ?u"
    by simp
  have "?u \<le> 2 powi binade x"
    by (rule power_int_increasing) simp_all
  also have "\<dots> \<le> x"
    using assms by (rule binade_le)
  finally have "1 \<le> x / ?u"
    using u by (simp add: field_simps)
  then have "1 \<le> \<lfloor>x / ?u\<rfloor>"
    by (simp only: one_le_floor)
  then have "1 \<le> round_even (x / ?u)"
    using round_even_ge_floor [of "x / ?u"] by (rule order_trans)
  then have "0 < real_of_int (round_even (x / ?u))"
    by simp
  with u have "0 < real_of_int (round_even (x / ?u)) * ?u"
    by simp
  with assms show ?thesis
    by (simp add: round_double_def round_positive_def)
qed

lemma deadline_nonzero: "0 \<le> t \<Longrightarrow> round_double (t + 5) \<noteq> 0"
  using round_double_pos [of "t + 5"] by simp

lemma round_double_105: "round_double 105 = 105"
  by code_simp

section \<open>The application object and the worker thread\<close>

lemma dead_thread_step:
  "proc self = Some p \<Longrightarrow> \<not> is_alive p \<Longrightarrow> app_step base clk ev (self, sh) = (self, sh)"
  by (cases p; cases ev) (simp_all add: app_step_def thread_step_def terminate_def is_alive_def)

lemma dead_thread_run:
  "proc self = Some p \<Longrightarrow> \<not> is_alive p \<Longrightarrow> run base clk evs (self, sh) = (self, sh)"
  unfolding run_def by (induction evs) (simp_all add: dead_thread_step)

text \<open>
  Claim C9.  The thread is inside \<open>select\<close>, whatever has happened to \<open>kill_thread\<close> since
  the loop test.  When the framework class provides no \<open>on_timer\<close>, the return value -1
  ends the thread with \<open>AttributeError\<close>: nothing that follows moves it again.  Any other
  return value takes the thread to the inner loop.
\<close>

theorem select_minus_one_ends_worker:
  assumes "''on_timer'' \<notin> set base"
    and "proc self = Some In_select"
  shows "thread_step base clk (Select ret) (self, sh) =
           (if ret = - 1 then (self\<lparr>proc := Some (Died (AttributeError ''on_timer''))\<rparr>, sh)
            else (self\<lparr>proc := Some Loop3\<rparr>, sh)) \<and>
         run base clk evs (thread_step base clk (Select (- 1)) (self, sh)) =
           (self\<lparr>proc := Some (Died (AttributeError ''on_timer''))\<rparr>, sh)"
proof -
  have nr: "\<not> resolves base ''on_timer''"
    using assms(1) by (simp add: resolves_def own_attributes_def)
  have step: "thread_step base clk (Select ret) (self, sh) =
           (if ret = - 1 then (self\<lparr>proc := Some (Died (AttributeError ''on_timer''))\<rparr>, sh)
            else (self\<lparr>proc := Some Loop3\<rparr>, sh))" for ret
    using assms(2) nr by (simp add: thread_step_def)
  have "run base clk evs (self\<lparr>proc := Some (Died (AttributeError ''on_timer''))\<rparr>, sh) =
      (self\<lparr>proc := Some (Died (AttributeError ''on_timer''))\<rparr>, sh)"
    by (rule dead_thread_run [where p = "Died (AttributeError ''on_timer'')"])
      (simp_all add: is_alive_def)
  with step [of ret] step [of "- 1"] show ?thesis
    by simp
qed

lemma first_started_value:
  "first_started =
     (\<lparr>args_cameras = [example_config], proc = Some Loop1, own_num_curlobj = Some 1,
       own_kill_thread = None\<rparr>,
      \<lparr>cameras = [example_camera], multi = [0], class_num_curlobj = 0,
       class_kill_thread = False,
       app_hass = \<lparr>logs = [LogStartingThread], published = []\<rparr>,
       next_curl = 1, clock_reads = 0\<rparr>)"
  by (simp add: first_started_def initialize_def new_instance_def fresh_shared_def
      add_camera_def num_curlobj_def example_camera_def hass_log_def)

lemma at_select_value:
  "at_select =
     (\<lparr>args_cameras = [example_config], proc = Some In_select, own_num_curlobj = Some 1,
       own_kill_thread = None\<rparr>,
      \<lparr>cameras = [example_camera], multi = [0], class_num_curlobj = 0,
       class_kill_thread = False,
       app_hass = \<lparr>logs = [LogStartingThread], published = []\<rparr>,
       next_curl = 1, clock_reads = 0\<rparr>)"
  by (simp add: at_select_def run_def app_step_def thread_step_def first_started_value
      kill_thread_def perform_def quiet_io_def)

text \<open>
  C9 on the first instance, inside \<open>select\<close> after its first \<open>perform\<close>; also when
  \<open>terminate\<close> is called while it waits.
\<close>

theorem select_minus_one_ends_worker_witness:
  "''on_timer'' \<notin> set example_base \<and>
   proc (fst at_select) = Some In_select \<and>
   proc (fst (thread_step example_base example_clock (Select (- 1)) at_select)) =
     Some (Died (AttributeError ''on_timer'')) \<and>
   proc (fst (thread_step example_base example_clock (Select 0) at_select)) = Some Loop3 \<and>
   proc (fst (run example_base example_clock [Test, Select 0, Test, Perform quiet_io]
     (thread_step example_base example_clock (Select (- 1)) at_select))) =
     Some (Died (AttributeError ''on_timer'')) \<and>
   proc (fst (terminate at_select)) = Some In_select \<and>
   kill_thread (fst (terminate at_select)) (snd (terminate at_select)) \<and>
   proc (fst (thread_step example_base example_clock (Select (- 1)) (terminate at_select))) =
     Some (Died (AttributeError ''on_timer''))"
proof -
  have b: "''on_timer'' \<notin> set example_base"
    by (simp add: example_base_def)
  have p: "proc (fst at_select) = Some In_select"
    by (simp add: at_select_value)
  have p': "proc (fst (terminate at_select)) = Some In_select"
    and k': "kill_thread (fst (terminate at_select)) (snd (terminate at_select))"
    by (simp_all add: at_select_value terminate_def is_alive_def kill_thread_def)
  note t = select_minus_one_ends_worker [OF b p, of example_clock]
  note t' = select_minus_one_ends_worker [OF b p', of example_clock "- 1"
      "snd (terminate at_select)" "[]"]
  from t [of "- 1" "snd at_select" "[]"]
    t [of 0 "snd at_select" "[Test, Select 0, Test, Perform quiet_io]"] t' b p p' k'
  show ?thesis
    by simp
qed

subsection \<open>Class attributes and instance attributes\<close>

lemma add_camera_shared:
  "cameras (snd (add_camera c st)) =
     cameras (snd st) @ [\<lparr>cfg = c, curlobj = Some (next_curl (snd st)), connected = None, reconnect = None\<rparr>]"
  "multi (snd (add_camera c st)) = multi (snd st) @ [next_curl (snd st)]"
  "next_curl (snd (add_camera c st)) = Suc (next_curl (snd st))"
  "class_num_curlobj (snd (add_camera c st)) = class_num_curlobj (snd st)"
  "class_kill_thread (snd (add_camera c st)) = class_kill_thread (snd st)"
  "app_hass (snd (add_camera c st)) = app_hass (snd st)"
  "clock_reads (snd (add_camera c st)) = clock_reads (snd st)"
  "num_curlobj (fst (add_camera c st)) (snd (add_camera c st)) = Suc (num_curlobj (fst st) (snd st))"
  "own_kill_thread (fst (add_camera c st)) = own_kill_thread (fst st)"
  "args_cameras (fst (add_camera c st)) = args_cameras (fst st)"
  "proc (fst (add_camera c st)) = proc (fst st)"
  by (cases st; simp add: add_camera_def Let_def num_curlobj_def)+

lemma fold_add_camera_shared:
  "cameras (snd (fold add_camera cs st)) = cameras (snd st) @ new_cameras cs (next_curl (snd st)) \<and>
   multi (snd (fold add_camera cs st)) = multi (snd st) @ [next_curl (snd st)..<next_curl (snd st) + length cs] \<and>
   next_curl (snd (fold add_camera cs st)) = next_curl (snd st) + length cs \<and>
   class_num_curlobj (snd (fold add_camera cs st)) = class_num_curlobj (snd st) \<and>
   class_kill_thread (snd (fold add_camera cs st)) = class_kill_thread (snd st) \<and>
   app_hass (snd (fold add_camera cs st)) = app_hass (snd st) \<and>
   clock_reads (snd (fold add_camera cs st)) = clock_reads (snd st) \<and>
   num_curlobj (fst (fold add_camera cs st)) (snd (fold add_camera cs st)) =
     num_curlobj (fst st) (snd st) + length cs \<and>
   own_kill_thread (fst (fold add_camera cs st)) = own_kill_thread (fst st)"
proof (induction cs arbitrary: st)
  case Nil
  show ?case by (simp add: new_cameras_def)
next
  case (Cons c cs)
  have upt: "[n..<Suc (n + k)] = n # [Suc n..<Suc (n + k)]" for n k :: nat
    by (simp add: upt_conv_Cons)
  show ?case
    using Cons.IH [of "add_camera c st"]
    by (simp add: add_camera_shared new_cameras_def upt del: upt_Suc)
qed

lemma terminate_shared:
  "cameras (snd (terminate st)) = cameras (snd st)"
  "multi (snd (terminate st)) = multi (snd st)"
  "next_curl (snd (terminate st)) = next_curl (snd st)"
  "class_num_curlobj (snd (terminate st)) = class_num_curlobj (snd st)"
  "class_kill_thread (snd (terminate st)) = class_kill_thread (snd st)"
  "published (app_hass (snd (terminate st))) = published (app_hass (snd st))"
  by (cases st; simp add: terminate_def hass_log_def split: option.splits)+

lemma num_curlobj_frame [simp]:
  "num_curlobj (self\<lparr>proc := p\<rparr>) sh = num_curlobj self sh"
  "num_curlobj self (sh\<lparr>app_hass := hs\<rparr>) = num_curlobj self sh"
  "num_curlobj (self\<lparr>own_kill_thread := k\<rparr>) sh = num_curlobj self sh"
  by (simp_all add: num_curlobj_def split: option.splits)

lemma kill_thread_frame [simp]:
  "kill_thread (self\<lparr>proc := p\<rparr>) sh = kill_thread self sh"
  "kill_thread self (sh\<lparr>app_hass := hs\<rparr>) = kill_thread self sh"
  by (simp_all add: kill_thread_def split: option.splits)

lemma initialize_shared:
  "cameras (snd (initialize st)) =
     cameras (snd st) @ new_cameras (args_cameras (fst st)) (next_curl (snd st))"
  "multi (snd (initialize st)) =
     multi (snd st) @ [next_curl (snd st)..<next_curl (snd st) + length (args_cameras (fst st))]"
  "next_curl (snd (initialize st)) = next_curl (snd st) + length (args_cameras (fst st))"
  "class_num_curlobj (snd (initialize st)) = class_num_curlobj (snd st)"
  "class_kill_thread (snd (initialize st)) = class_kill_thread (snd st)"
  "num_curlobj (fst (initialize st)) (snd (initialize st)) =
     num_curlobj (fst st) (snd st) + length (args_cameras (fst st))"
  using fold_add_camera_shared [of "args_cameras (fst st)" st]
  by (simp_all add: initialize_def case_prod_beta)

text \<open>
  Claim C8, as amended.  The list \<open>cameras\<close> and the \<open>CurlMulti\<close> object are shared by all
  instances: \<open>initialize\<close> on an instance \<open>b\<close> appends its cameras to the list and its
  handles to the stack that are already there.  \<open>num_curlobj\<close> and \<open>kill_thread\<close> are
  assigned through \<open>self\<close> only, which binds them on the instance: after \<open>initialize\<close> the
  instance counts its own handles, and neither \<open>initialize\<close> nor \<open>terminate\<close> on \<open>b\<close> changes
  what any other instance \<open>a\<close> reads as \<open>num_curlobj\<close> or \<open>kill_thread\<close>.
\<close>

theorem shared_list_and_stack_own_counter_and_flag:
  "cameras (snd (initialize (b, sh))) = cameras sh @ new_cameras (args_cameras b) (next_curl sh) \<and>
   multi (snd (initialize (b, sh))) =
     multi sh @ [next_curl sh..<next_curl sh + length (args_cameras b)] \<and>
   num_curlobj (fst (initialize (b, sh))) (snd (initialize (b, sh))) =
     num_curlobj b sh + length (args_cameras b) \<and>
   num_curlobj a (snd (initialize (b, sh))) = num_curlobj a sh \<and>
   kill_thread a (snd (initialize (b, sh))) = kill_thread a sh \<and>
   num_curlobj a (snd (terminate (b, sh))) = num_curlobj a sh \<and>
   kill_thread a (snd (terminate (b, sh))) = kill_thread a sh"
  using initialize_shared [of "(b, sh)"] terminate_shared [of "(b, sh)"]
  by (simp add: num_curlobj_def kill_thread_def split: option.splits)

lemma second_started_value:
  "second_started =
     (\<lparr>args_cameras = [second_config], proc = Some Loop1, own_num_curlobj = Some 1,
       own_kill_thread = None\<rparr>,
      \<lparr>cameras = [example_camera,
                  \<lparr>cfg = second_config, curlobj = Some 1, connected = None, reconnect = None\<rparr>],
       multi = [0, 1], class_num_curlobj = 0, class_kill_thread = False,
       app_hass = \<lparr>logs = [LogStartingThread, LogStartingThread], published = []\<rparr>,
       next_curl = 2, clock_reads = 0\<rparr>)"
  by (simp add: second_started_def first_started_value initialize_def new_instance_def
      add_camera_def num_curlobj_def hass_log_def)

text \<open>
  Claim C8 as stated fails for the counter and the flag: with two instances started,
  the second instance's \<open>num_curlobj\<close> is 1 while the shared stack holds two handles, and
  after \<open>terminate\<close> on the first instance its own \<open>kill_thread\<close> is true while the second
  instance still reads false.
\<close>

theorem kill_thread_not_shared:
  "multi (snd second_started) = [0, 1] \<and>
   num_curlobj (fst second_started) (snd second_started) = 1 \<and>
   kill_thread (fst first_stopped) (snd first_stopped) \<and>
   \<not> kill_thread (fst second_started) (snd first_stopped)"
  by (simp add: first_stopped_def second_started_value first_started_value terminate_def
      is_alive_def kill_thread_def num_curlobj_def)

subsection \<open>Frame properties of the callbacks\<close>

lemma camera_index_Some:
  "camera_index h cs = Some i \<Longrightarrow> i < length cs \<and> curlobj (cs ! i) = Some h"
proof (induction cs arbitrary: i)
  case Nil
  then show ?case by simp
next
  case (Cons c cs)
  then show ?case
    by (cases "curlobj c = Some h") auto
qed

lemma handle_line_fst:
  "fst (handle_line l (cam, hs)) =
     (if l = ''HTTP/1.1 200 OK'' then cam\<lparr>connected := Some True\<rparr> else cam)"
  by (simp add: handle_line_def on_connect_def Let_def split: sum.splits)

lemma fold_handle_line_fst:
  "\<exists>c. fst (fold handle_line ls (cam, hs)) = cam\<lparr>connected := c\<rparr>"
proof (induction ls arbitrary: cam hs)
  case Nil
  have "cam = cam\<lparr>connected := connected cam\<rparr>" by simp
  then show ?case by (metis fold_simps(1) fst_conv)
next
  case (Cons l ls)
  obtain cam' hs' where st: "handle_line l (cam, hs) = (cam', hs')"
    by (cases "handle_line l (cam, hs)")
  with handle_line_fst [of l cam hs]
  have cam': "cam' = (if l = ''HTTP/1.1 200 OK'' then cam\<lparr>connected := Some True\<rparr> else cam)"
    by simp
  from Cons.IH [of cam' hs'] obtain c where "fst (fold handle_line ls (cam', hs')) = cam'\<lparr>connected := c\<rparr>"
    by blast
  with st cam' show ?case
    by (cases "l = ''HTTP/1.1 200 OK''") auto
qed

lemma on_receive_fst:
  "\<exists>c. fst (on_receive d (cam, hs)) = cam\<lparr>connected := c\<rparr>"
  unfolding on_receive_def by (rule fold_handle_line_fst)

lemma published_fold_publish:
  "published (fold (publish c) items h) =
     published h @ map (\<lambda>item. (py_strip_slash (fst item), snd item)) items"
  by (induction items arbitrary: h) (simp_all add: published_publish)

lemma on_alarm_published:
  assumes "cfg c1 = cfg c2" and "published h1 = published h2"
  shows "(\<exists>e. on_alarm c1 st h1 = Inl e \<and> on_alarm c2 st h2 = Inl e) \<or>
         (\<exists>k1 k2. on_alarm c1 st h1 = Inr k1 \<and> on_alarm c2 st h2 = Inr k2 \<and>
            published k1 = published k2)"
  using assms by (simp add: on_alarm_def published_fold_publish Let_def split: sum.splits)

lemma parse_event_published:
  assumes "cfg c1 = cfg c2" and "published h1 = published h2"
  shows "(\<exists>e. parse_event c1 st h1 = Inl e \<and> parse_event c2 st h2 = Inl e) \<or>
         (\<exists>k1 k2. parse_event c1 st h1 = Inr k1 \<and> parse_event c2 st h2 = Inr k2 \<and>
            published k1 = published k2)"
  using assms on_alarm_published [OF assms, of st]
  by (simp add: parse_event_def split: sum.splits)

lemma handle_line_published:
  assumes "cfg c1 = cfg c2" and "published h1 = published h2"
  shows "cfg (fst (handle_line l (c1, h1))) = cfg (fst (handle_line l (c2, h2))) \<and>
         published (snd (handle_line l (c1, h1))) = published (snd (handle_line l (c2, h2)))"
proof -
  define d1 where "d1 = (if l = ''HTTP/1.1 200 OK'' then c1\<lparr>connected := Some True\<rparr> else c1)"
  define d2 where "d2 = (if l = ''HTTP/1.1 200 OK'' then c2\<lparr>connected := Some True\<rparr> else c2)"
  define k1 where "k1 = (if l = ''HTTP/1.1 200 OK'' then hass_log (LogOnConnect (host (cfg c1))) h1 else h1)"
  define k2 where "k2 = (if l = ''HTTP/1.1 200 OK'' then hass_log (LogOnConnect (host (cfg c2))) h2 else h2)"
  have c: "cfg d1 = cfg d2" and p: "published k1 = published k2"
    using assms by (simp_all add: d1_def d2_def k1_def k2_def hass_log_def)
  have e1: "handle_line l (c1, h1) =
      (if \<not> prefix ''Code='' l then (d1, k1)
       else (case build_alarm (py_split '';'' l) [] of
           Inl e \<Rightarrow> (d1, hass_log (LogFailedToParse e) k1)
         | Inr alarm \<Rightarrow>
             (case parse_event d1 alarm k1 of
                Inl e \<Rightarrow> (d1, hass_log (LogFailedToParse e) k1)
              | Inr h \<Rightarrow> (d1, h))))"
    by (simp add: handle_line_def on_connect_def Let_def d1_def k1_def split: sum.splits)
  have e2: "handle_line l (c2, h2) =
      (if \<not> prefix ''Code='' l then (d2, k2)
       else (case build_alarm (py_split '';'' l) [] of
           Inl e \<Rightarrow> (d2, hass_log (LogFailedToParse e) k2)
         | Inr alarm \<Rightarrow>
             (case parse_event d2 alarm k2 of
                Inl e \<Rightarrow> (d2, hass_log (LogFailedToParse e) k2)
              | Inr h \<Rightarrow> (d2, h))))"
    by (simp add: handle_line_def on_connect_def Let_def d2_def k2_def split: sum.splits)
  show ?thesis
  proof (cases "build_alarm (py_split '';'' l) []")
    case (Inl e)
    with c p show ?thesis
      unfolding e1 e2 by (simp add: hass_log_def)
  next
    case (Inr alarm)
    from parse_event_published [OF c p, of alarm] Inr c p show ?thesis
      unfolding e1 e2 by (auto simp: hass_log_def)
  qed
qed

lemma fold_handle_line_published:
  assumes "cfg c1 = cfg c2" and "published h1 = published h2"
  shows "published (snd (fold handle_line ls (c1, h1))) =
         published (snd (fold handle_line ls (c2, h2)))"
  using assms
proof (induction ls arbitrary: c1 h1 c2 h2)
  case Nil
  then show ?case by simp
next
  case (Cons l ls)
  from handle_line_published [OF Cons.prems, of l]
  show ?case
    using Cons.IH [of "fst (handle_line l (c1, h1))" "fst (handle_line l (c2, h2))"
        "snd (handle_line l (c1, h1))" "snd (handle_line l (c2, h2))"]
    by simp
qed

lemma on_receive_published:
  "cfg c1 = cfg c2 \<Longrightarrow> published h1 = published h2 \<Longrightarrow>
   published (snd (on_receive d (c1, h1))) = published (snd (on_receive d (c2, h2)))"
  unfolding on_receive_def by (rule fold_handle_line_published)

lemma on_receive_camera:
  "fst (on_receive d (cam, h1)) = fst (on_receive d (cam, h2))"
proof -
  have "fst (fold handle_line ls (cam, h1)) = fst (fold handle_line ls (cam, h2))" for ls
  proof (induction ls arbitrary: cam h1 h2)
    case Nil
    show ?case by simp
  next
    case (Cons l ls)
    obtain a1 b1 where s1: "handle_line l (cam, h1) = (a1, b1)"
      by (cases "handle_line l (cam, h1)")
    obtain a2 b2 where s2: "handle_line l (cam, h2) = (a2, b2)"
      by (cases "handle_line l (cam, h2)")
    from s1 s2 handle_line_fst [of l cam h1] handle_line_fst [of l cam h2] have "a1 = a2"
      by simp
    with Cons.IH [of a1 b1 b2] s1 s2 show ?case
      by simp
  qed
  then show ?thesis by (simp add: on_receive_def)
qed

subsection \<open>Handling a finished or failed transfer\<close>

lemma camera_index_cong:
  "map curlobj cs1 = map curlobj cs2 \<Longrightarrow> camera_index h cs1 = camera_index h cs2"
proof (induction cs1 arbitrary: cs2)
  case Nil
  then show ?case by simp
next
  case (Cons c cs1)
  then obtain d ds where "cs2 = d # ds" "curlobj c = curlobj d" "map curlobj cs1 = map curlobj ds"
    by (cases cs2) auto
  with Cons.IH [of ds] show ?case by simp
qed

lemma handle_done_cases:
  obtains (missing) "camera_index h (cameras sh) = None"
      "handle_done clk h r sh = (Some StopIteration, sh)"
  | (pending) i where "camera_index h (cameras sh) = Some i"
      "truthy (reconnect (cameras sh ! i))"
      "handle_done clk h r sh = (None, sh)"
  | (armed) i where "camera_index h (cameras sh) = Some i"
      "\<not> truthy (reconnect (cameras sh ! i))"
      "handle_done clk h r sh =
         (None,
          sh\<lparr>cameras := (cameras sh)[i := (cameras sh ! i)
                  \<lparr>connected := Some False, reconnect := Some (round_double (clk (clock_reads sh) + 5))\<rparr>],
             app_hass := hass_log (LogOnDisconnect (host (cfg (cameras sh ! i))) r) (app_hass sh),
             clock_reads := clock_reads sh + 1\<rparr>)"
proof (cases "camera_index h (cameras sh)")
  case None
  then show ?thesis
    using missing by (simp add: handle_done_def)
next
  case (Some i)
  show ?thesis
  proof (cases "truthy (reconnect (cameras sh ! i))")
    case True
    with Some show ?thesis
      using pending by (simp add: handle_done_def)
  next
    case False
    with Some have "handle_done clk h r sh =
         (None,
          sh\<lparr>cameras := (cameras sh)[i := (cameras sh ! i)
                  \<lparr>connected := Some False, reconnect := Some (round_double (clk (clock_reads sh) + 5))\<rparr>],
             app_hass := hass_log (LogOnDisconnect (host (cfg (cameras sh ! i))) r) (app_hass sh),
             clock_reads := clock_reads sh + 1\<rparr>)"
      by (simp add: handle_done_def on_disconnect_def Let_def)
    with Some False show ?thesis
      by (rule armed)
  qed
qed

lemma handle_done_frame:
  "length (cameras (snd (handle_done clk h r sh))) = length (cameras sh)"
  "map curlobj (cameras (snd (handle_done clk h r sh))) = map curlobj (cameras sh)"
  "map cfg (cameras (snd (handle_done clk h r sh))) = map cfg (cameras sh)"
  "multi (snd (handle_done clk h r sh)) = multi sh"
  "next_curl (snd (handle_done clk h r sh)) = next_curl sh"
  "published (app_hass (snd (handle_done clk h r sh))) = published (app_hass sh)"
  by (cases rule: handle_done_cases [of h sh clk r];
      simp add: hass_log_def map_update list_update_same_conv camera_index_Some)+

lemma handle_done_other:
  assumes "j < length (cameras sh)" and "curlobj (cameras sh ! j) \<noteq> Some h"
  shows "cameras (snd (handle_done clk h r sh)) ! j = cameras sh ! j"
proof (cases rule: handle_done_cases [of h sh clk r])
  case missing
  then show ?thesis by simp
next
  case (pending i)
  then show ?thesis by simp
next
  case (armed i)
  from camera_index_Some [OF armed(1)] assms(2) have "i \<noteq> j"
    by auto
  with armed(3) show ?thesis by simp
qed

lemma deliver_cong:
  assumes "map curlobj (cameras s1) = map curlobj (cameras s2)"
    and "map cfg (cameras s1) = map cfg (cameras s2)"
    and "published (app_hass s1) = published (app_hass s2)"
    and "j < length (cameras s2)"
    and "cameras s1 ! j = cameras s2 ! j"
  shows "cameras (deliver w s1) ! j = cameras (deliver w s2) ! j \<and>
         published (app_hass (deliver w s1)) = published (app_hass (deliver w s2))"
proof -
  have len: "length (cameras s1) = length (cameras s2)"
    using assms(1) by (rule map_eq_imp_length_eq)
  have idx: "camera_index (fst w) (cameras s1) = camera_index (fst w) (cameras s2)"
    using assms(1) by (rule camera_index_cong)
  show ?thesis
  proof (cases "camera_index (fst w) (cameras s2)")
    case None
    with idx assms show ?thesis by (simp add: deliver_def)
  next
    case (Some k)
    from camera_index_Some [OF Some] have k: "k < length (cameras s2)"
      by simp
    have c: "cfg (cameras s1 ! k) = cfg (cameras s2 ! k)"
      using assms(2) k len by (metis nth_map)
    obtain a1 b1 where r1: "on_receive (snd w) (cameras s1 ! k, app_hass s1) = (a1, b1)"
      by (cases "on_receive (snd w) (cameras s1 ! k, app_hass s1)")
    obtain a2 b2 where r2: "on_receive (snd w) (cameras s2 ! k, app_hass s2) = (a2, b2)"
      by (cases "on_receive (snd w) (cameras s2 ! k, app_hass s2)")
    from on_receive_published [OF c assms(3), of "snd w"] r1 r2 have pub: "published b1 = published b2"
      by simp
    have cam: "k = j \<Longrightarrow> a1 = a2"
      using r1 r2 assms(5) on_receive_camera [of "snd w" "cameras s2 ! j" "app_hass s1" "app_hass s2"]
      by simp
    from Some idx r1 r2 pub cam k len assms(4,5) show ?thesis
      by (cases "k = j") (simp_all add: deliver_def)
  qed
qed

subsection \<open>What the loop keeps\<close>

lemma loop_invariant_step:
  assumes "loop_invariant sh"
    and "set (multi sh') = set (multi sh)"
    and "\<And>c'. c' \<in> set (cameras sh') \<Longrightarrow>
           \<exists>c\<in>set (cameras sh). curlobj c' = curlobj c \<and>
             (reconnect c' = reconnect c \<or> reconnect c' \<noteq> Some 0)"
  shows "loop_invariant sh'"
  unfolding loop_invariant_def
proof
  fix c'
  assume "c' \<in> set (cameras sh')"
  from assms(3) [OF this] obtain c where c: "c \<in> set (cameras sh)" "curlobj c' = curlobj c"
    "reconnect c' = reconnect c \<or> reconnect c' \<noteq> Some 0"
    by blast
  from assms(1) c(1) have "(\<exists>h. curlobj c = Some h \<and> h \<in> set (multi sh)) \<and> reconnect c \<noteq> Some 0"
    by (simp add: loop_invariant_def)
  with c assms(2) show "(\<exists>h. curlobj c' = Some h \<and> h \<in> set (multi sh')) \<and> reconnect c' \<noteq> Some 0"
    by auto
qed

lemma loop_invariant_update:
  assumes "loop_invariant sh"
    and "i < length (cameras sh)"
    and "set (multi sh') = set (multi sh)"
    and "cameras sh' = (cameras sh)[i := c]"
    and "curlobj c = curlobj (cameras sh ! i)"
    and "reconnect c = reconnect (cameras sh ! i) \<or> reconnect c \<noteq> Some 0"
  shows "loop_invariant sh'"
  using assms(1,3)
proof (rule loop_invariant_step)
  fix c'
  assume "c' \<in> set (cameras sh')"
  then have "c' = c \<or> c' \<in> set (cameras sh)"
    using assms(4) set_update_subset_insert [of "cameras sh" i c] by auto
  then show "\<exists>d\<in>set (cameras sh). curlobj c' = curlobj d \<and>
             (reconnect c' = reconnect d \<or> reconnect c' \<noteq> Some 0)"
  proof
    assume "c' = c"
    with assms(2,5,6) show ?thesis
      by (intro bexI [of _ "cameras sh ! i"]) auto
  next
    assume "c' \<in> set (cameras sh)"
    then show ?thesis by blast
  qed
qed

lemma loop_invariant_same:
  "loop_invariant sh \<Longrightarrow> cameras sh' = cameras sh \<Longrightarrow> set (multi sh') = set (multi sh) \<Longrightarrow>
   loop_invariant sh'"
  by (simp add: loop_invariant_def)

lemma deliver_invariant:
  assumes "loop_invariant sh"
  shows "loop_invariant (deliver w sh)"
proof (cases "camera_index (fst w) (cameras sh)")
  case None
  with assms show ?thesis by (simp add: deliver_def)
next
  case (Some i)
  from camera_index_Some [OF Some] have i: "i < length (cameras sh)"
    by simp
  obtain cam hs where r: "on_receive (snd w) (cameras sh ! i, app_hass sh) = (cam, hs)"
    by (cases "on_receive (snd w) (cameras sh ! i, app_hass sh)")
  from on_receive_fst [of "snd w" "cameras sh ! i" "app_hass sh"] r
  obtain c where cam: "cam = (cameras sh ! i)\<lparr>connected := c\<rparr>"
    by auto
  have d: "deliver w sh = sh\<lparr>cameras := (cameras sh)[i := cam], app_hass := hs\<rparr>"
    using Some r by (simp add: deliver_def)
  show ?thesis
    by (rule loop_invariant_update [OF assms i, where c = cam]) (simp_all add: d cam)
qed

lemma perform_invariant: "loop_invariant sh \<Longrightarrow> loop_invariant (perform io sh)"
proof -
  have "loop_invariant s \<Longrightarrow> loop_invariant (fold deliver ws s)" for ws s
    by (induction ws arbitrary: s) (simp_all add: deliver_invariant)
  then show "loop_invariant sh \<Longrightarrow> loop_invariant (perform io sh)"
    by (simp add: perform_def)
qed

lemma handle_done_invariant:
  assumes "loop_invariant sh" and "\<forall>n. 0 \<le> clk n"
  shows "loop_invariant (snd (handle_done clk h r sh))"
proof (cases rule: handle_done_cases [of h sh clk r])
  case missing
  with assms show ?thesis by simp
next
  case (pending i)
  with assms show ?thesis by simp
next
  case (armed i)
  from assms(2) have "0 \<le> clk (clock_reads sh)"
    by blast
  then have nz: "round_double (clk (clock_reads sh) + 5) \<noteq> 0"
    by (rule deadline_nonzero)
  from camera_index_Some [OF armed(1)] have i: "i < length (cameras sh)"
    by simp
  show ?thesis
    by (rule loop_invariant_update [OF assms(1) i,
          where c = "(cameras sh ! i)\<lparr>connected := Some False,
            reconnect := Some (round_double (clk (clock_reads sh) + 5))\<rparr>"])
      (simp_all add: armed(3) nz)
qed

lemma sweep_camera_invariant:
  assumes "loop_invariant s" and "i < length (cameras s)"
  shows "loop_invariant (snd (sweep_camera clk i s)) \<and>
         length (cameras (snd (sweep_camera clk i s))) = length (cameras s)"
proof -
  from assms(2) have "cameras s ! i \<in> set (cameras s)"
    by simp
  with assms(1) obtain h where h: "curlobj (cameras s ! i) = Some h" "h \<in> set (multi s)"
    unfolding loop_invariant_def by blast
  let ?armed = "s\<lparr>clock_reads := clock_reads s + 1,
                    multi := removeAll h (multi s) @ [h],
                    cameras := (cameras s)[i := (cameras s ! i)\<lparr>reconnect := None\<rparr>]\<rparr>"
  have eq: "sweep_camera clk i s =
      (if \<not> truthy (reconnect (cameras s ! i)) then (None, s)
       else if the (reconnect (cameras s ! i)) < clk (clock_reads s) then (None, ?armed)
       else (None, s\<lparr>clock_reads := clock_reads s + 1\<rparr>))"
    using h by (simp add: sweep_camera_def remove_handle_def add_handle_def Let_def)
  have "set (multi ?armed) = set (multi s)"
    using h(2) by auto
  then have "loop_invariant ?armed"
    by (intro loop_invariant_update [OF assms,
          where c = "(cameras s ! i)\<lparr>reconnect := None\<rparr>"]) simp_all
  moreover have "loop_invariant (s\<lparr>clock_reads := clock_reads s + 1\<rparr>)"
    using assms(1) by (rule loop_invariant_same) simp_all
  ultimately show ?thesis
    using assms(1) by (simp add: eq)
qed

lemma for_each_preserves:
  assumes "\<And>x s. x \<in> set xs \<Longrightarrow> P s \<Longrightarrow> P (snd (f x s))" and "P s"
  shows "P (snd (for_each f xs s))"
  using assms
proof (induction xs arbitrary: s)
  case Nil
  then show ?case by simp
next
  case (Cons x xs)
  obtain e s' where r: "f x s = (e, s')"
    by (cases "f x s")
  from Cons.prems(1) [of x s] Cons.prems(2) r have p: "P s'"
    by simp
  show ?case
  proof (cases e)
    case None
    from Cons.IH [of s'] Cons.prems(1) p have "P (snd (for_each f xs s'))"
      by simp
    with r None show ?thesis by simp
  next
    case (Some err)
    with r p show ?thesis by simp
  qed
qed

lemma reconcile_invariant:
  assumes "loop_invariant sh" and "\<forall>n. 0 \<le> clk n"
  shows "loop_invariant (snd (reconcile clk io sh))"
proof -
  let ?ok = "for_each (\<lambda>h. handle_done clk h (Success (done_err io))) (done_ok io) sh"
  obtain e1 s1 where r1: "?ok = (e1, s1)"
    by (cases ?ok)
  have "loop_invariant (snd ?ok)"
    using assms by (intro for_each_preserves [where P = loop_invariant]) (simp_all add: handle_done_invariant)
  with r1 have i1: "loop_invariant s1"
    by simp
  let ?err = "for_each (\<lambda>m. handle_done clk (fst m) (Failure (snd (snd m)) (fst (snd m))))
                  (done_err io) s1"
  obtain e2 s2 where r2: "?err = (e2, s2)"
    by (cases ?err)
  have "loop_invariant (snd ?err)"
    using i1 assms(2) by (intro for_each_preserves [where P = loop_invariant]) (simp_all add: handle_done_invariant)
  with r2 have i2: "loop_invariant s2"
    by simp
  let ?P = "\<lambda>s. loop_invariant s \<and> length (cameras s) = length (cameras s2)"
  have "?P (snd (for_each (sweep_camera clk) [0..<length (cameras s2)] s2))"
  proof (rule for_each_preserves [where P = ?P])
    fix x s
    assume "x \<in> set [0..<length (cameras s2)]" and "?P s"
    then show "?P (snd (sweep_camera clk x s))"
      using sweep_camera_invariant [of s x clk] by simp
  next
    from i2 show "?P s2" by simp
  qed
  then have i3: "loop_invariant (snd (for_each (sweep_camera clk) [0..<length (cameras s2)] s2))"
    by simp
  show ?thesis
    using r1 r2 i1 i2 i3 by (cases e1; cases e2) (simp_all add: reconcile_def)
qed

lemma thread_step_invariant:
  assumes "loop_invariant (snd st)" and "\<forall>n. 0 \<le> clk n"
  shows "loop_invariant (snd (thread_step base clk ev st))"
proof -
  obtain self sh where st: "st = (self, sh)"
    by (cases st)
  with assms have inv: "loop_invariant sh"
    by simp
  have log: "loop_invariant (sh\<lparr>app_hass := hs\<rparr>)" for hs
    using inv by (rule loop_invariant_same) simp_all
  have p: "loop_invariant (perform io sh)" for io
    using inv by (rule perform_invariant)
  have rec: "loop_invariant (snd (reconcile clk io (perform io sh)))" for io
    using p assms(2) by (rule reconcile_invariant)
  show ?thesis
  proof (cases "proc self")
    case None
    with st inv show ?thesis by (simp add: thread_step_def)
  next
    case (Some pc)
    show ?thesis
    proof (cases ev)
      case (Perform io)
      obtain e s' where r: "reconcile clk io (perform io sh) = (e, s')"
        by (cases "reconcile clk io (perform io sh)")
      with rec [of io] have "loop_invariant s'"
        by simp
      with st Some Perform inv log p r show ?thesis
        by (cases pc; cases e) (simp_all add: thread_step_def Let_def)
    next
      case Test
      with st Some inv log show ?thesis
        by (cases pc) (simp_all add: thread_step_def)
    next
      case (Select ret)
      with st Some inv log show ?thesis
        by (cases pc) (simp_all add: thread_step_def)
    next
      case Terminate
      with st Some inv log show ?thesis
        by (cases pc) (simp_all add: thread_step_def)
    qed
  qed
qed

lemma terminate_invariant:
  "loop_invariant (snd st) \<Longrightarrow> loop_invariant (snd (terminate st))"
  by (erule loop_invariant_same) (simp_all add: terminate_shared)

lemma run_invariant:
  assumes "\<forall>n. 0 \<le> clk n"
  shows "loop_invariant (snd st) \<Longrightarrow> loop_invariant (snd (run base clk evs st))"
  unfolding run_def
proof (induction evs arbitrary: st)
  case Nil
  then show ?case by simp
next
  case (Cons ev evs)
  have "loop_invariant (snd (app_step base clk ev st))"
    using Cons.prems assms
    by (cases ev) (simp_all add: app_step_def thread_step_invariant terminate_invariant)
  from Cons.IH [OF this] show ?case by simp
qed

lemma initialize_invariant:
  assumes "loop_invariant (snd st)"
  shows "loop_invariant (snd (initialize st))"
  unfolding loop_invariant_def
proof
  fix cam
  assume "cam \<in> set (cameras (snd (initialize st)))"
  then have "cam \<in> set (cameras (snd st)) \<or>
      cam \<in> set (new_cameras (args_cameras (fst st)) (next_curl (snd st)))"
    by (simp add: initialize_shared)
  then show "(\<exists>h. curlobj cam = Some h \<and> h \<in> set (multi (snd (initialize st)))) \<and>
      reconnect cam \<noteq> Some 0"
  proof
    assume "cam \<in> set (cameras (snd st))"
    with assms show ?thesis
      by (auto simp: loop_invariant_def initialize_shared)
  next
    assume "cam \<in> set (new_cameras (args_cameras (fst st)) (next_curl (snd st)))"
    then obtain c h where "cam = \<lparr>cfg = c, curlobj = Some h, connected = None, reconnect = None\<rparr>"
      "h \<in> set [next_curl (snd st)..<next_curl (snd st) + length (args_cameras (fst st))]"
      by (auto simp: new_cameras_def dest: set_zip_rightD)
    then show ?thesis
      by (simp add: initialize_shared)
  qed
qed

text \<open>
  Claim C6, as amended.  After \<open>initialize\<close> and any sequence of loop iterations and
  \<open>terminate\<close> calls, with a clock that is never negative: a camera has a deadline if and
  only if its phase is \<open>PendingReconnect\<close>, and in every phase its handle is on the
  \<open>CurlMulti\<close> stack.
\<close>

theorem deadline_iff_pending_and_handle_always_held:
  assumes "\<forall>n. 0 \<le> clk n"
  shows "\<forall>cam\<in>set (cameras (snd (run base clk evs (initialize (new_instance cs, fresh_shared))))).
     (reconnect cam \<noteq> None \<longleftrightarrow> spec_phase cam = PendingReconnect) \<and>
     (\<exists>h. curlobj cam = Some h \<and>
        h \<in> set (multi (snd (run base clk evs (initialize (new_instance cs, fresh_shared))))))"
proof -
  have "loop_invariant (snd (new_instance cs, fresh_shared))"
    by (simp add: loop_invariant_def fresh_shared_def)
  then have "loop_invariant (snd (initialize (new_instance cs, fresh_shared)))"
    by (rule initialize_invariant)
  then have "loop_invariant (snd (run base clk evs (initialize (new_instance cs, fresh_shared))))"
    by (rule run_invariant [OF assms])
  then show ?thesis
    by (auto simp: loop_invariant_def spec_phase_def truthy_def split: option.splits)
qed

lemmas loop_eval =
  run_def app_step_def thread_step_def kill_thread_def num_curlobj_def
  perform_def reconcile_def handle_done_def sweep_camera_def truthy_def on_disconnect_def
  hass_log_def remove_handle_def add_handle_def resolves_def own_attributes_def Let_def
  round_double_105

lemma after_failure_value:
  "after_failure =
     (\<lparr>args_cameras = [example_config], proc = Some Loop2, own_num_curlobj = Some 1,
       own_kill_thread = None\<rparr>,
      \<lparr>cameras = [example_camera\<lparr>connected := Some False, reconnect := Some 105\<rparr>],
       multi = [0], class_num_curlobj = 0, class_kill_thread = False,
       app_hass = \<lparr>logs = [LogStartingThread,
                            LogOnDisconnect ''192.168.0.1'' (Failure ''Failed to connect'' 7)],
                   published = []\<rparr>,
       next_curl = 1, clock_reads = 2\<rparr>)"
  by (simp add: after_failure_def first_started_value loop_eval quiet_io_def failed_io_def
      example_base_def example_clock_def example_camera_def example_config_def)

text \<open>
  Claim C6 as stated fails for the handle: after the failure of its transfer the
  example camera waits out its delay (\<open>PendingReconnect\<close>) while its handle 0 is still on
  the \<open>CurlMulti\<close> stack.
\<close>

theorem handle_held_while_pending:
  "spec_phase (cameras (snd after_failure) ! 0) = PendingReconnect \<and>
   curlobj (cameras (snd after_failure) ! 0) = Some 0 \<and>
   0 \<in> set (multi (snd after_failure))"
  by (simp add: after_failure_value spec_phase_def truthy_def example_camera_def)

text \<open>
  C6 on the first instance: right after \<open>initialize\<close> the camera is \<open>Connecting\<close> without a
  deadline, after the failure it is \<open>PendingReconnect\<close> with the deadline 105; its handle
  is on the stack both times.
\<close>

theorem deadline_iff_pending_and_handle_always_held_witness:
  "(\<forall>n. 0 \<le> example_clock n) \<and>
   cameras (snd first_started) = [example_camera] \<and>
   reconnect example_camera = None \<and>
   spec_phase example_camera = Connecting \<and>
   (\<exists>h. curlobj example_camera = Some h \<and> h \<in> set (multi (snd first_started))) \<and>
   cameras (snd after_failure) =
     [example_camera\<lparr>connected := Some False, reconnect := Some 105\<rparr>] \<and>
   spec_phase (example_camera\<lparr>connected := Some False, reconnect := Some 105\<rparr>) =
     PendingReconnect \<and>
   (\<exists>h. curlobj (example_camera\<lparr>connected := Some False, reconnect := Some 105\<rparr>) = Some h \<and>
      h \<in> set (multi (snd after_failure)))"
proof -
  let ?failed = "example_camera\<lparr>connected := Some False, reconnect := Some 105\<rparr>"
  have clk: "\<forall>n. 0 \<le> example_clock n"
    by (simp add: example_clock_def)
  have c0: "cameras (snd first_started) = [example_camera]"
    by (simp add: first_started_value)
  have c1: "cameras (snd after_failure) = [?failed]"
    by (simp add: after_failure_value)
  have r0: "reconnect example_camera = None"
    by (simp add: example_camera_def)
  have r1: "reconnect ?failed \<noteq> None"
    by simp
  from deadline_iff_pending_and_handle_always_held [OF clk, of example_base "[]" "[example_config]"]
  have "\<forall>cam\<in>set (cameras (snd first_started)).
     (reconnect cam \<noteq> None \<longleftrightarrow> spec_phase cam = PendingReconnect) \<and>
     (\<exists>h. curlobj cam = Some h \<and> h \<in> set (multi (snd first_started)))"
    by (simp add: run_def first_started_def)
  with c0 r0 have s0: "spec_phase example_camera \<noteq> PendingReconnect"
    and h0: "\<exists>h. curlobj example_camera = Some h \<and> h \<in> set (multi (snd first_started))"
    by simp_all
  have "spec_phase example_camera \<in> {Connecting, Streaming, PendingReconnect}"
    by (simp add: spec_phase_def)
  moreover have "connected example_camera \<noteq> Some True"
    by (simp add: example_camera_def)
  ultimately have s0': "spec_phase example_camera = Connecting"
    using s0 by (auto simp: spec_phase_def split: if_splits)
  from deadline_iff_pending_and_handle_always_held [OF clk, of example_base
      "[Test, Perform quiet_io, Test, Select 0, Test, Perform failed_io]" "[example_config]"]
  have "\<forall>cam\<in>set (cameras (snd after_failure)).
     (reconnect cam \<noteq> None \<longleftrightarrow> spec_phase cam = PendingReconnect) \<and>
     (\<exists>h. curlobj cam = Some h \<and> h \<in> set (multi (snd after_failure)))"
    by (simp add: after_failure_def first_started_def)
  with c1 r1 have s1: "spec_phase ?failed = PendingReconnect"
    and h1: "\<exists>h. curlobj ?failed = Some h \<and> h \<in> set (multi (snd after_failure))"
    by simp_all
  from clk c0 r0 s0' h0 c1 s1 h1 show ?thesis
    by blast
qed

subsection \<open>Handles identify cameras\<close>

lemma deliver_curlobj:
  "map curlobj (cameras (deliver w sh)) = map curlobj (cameras sh)"
proof (cases "camera_index (fst w) (cameras sh)")
  case None
  then show ?thesis by (simp add: deliver_def)
next
  case (Some i)
  from camera_index_Some [OF Some] have i: "i < length (cameras sh)"
    by simp
  obtain cam hs where r: "on_receive (snd w) (cameras sh ! i, app_hass sh) = (cam, hs)"
    by (cases "on_receive (snd w) (cameras sh ! i, app_hass sh)")
  from on_receive_fst [of "snd w" "cameras sh ! i" "app_hass sh"] r
  obtain c where "cam = (cameras sh ! i)\<lparr>connected := c\<rparr>"
    by auto
  with Some r i show ?thesis
    by (simp add: deliver_def map_update list_update_same_conv)
qed

lemma perform_curlobj:
  "map curlobj (cameras (perform io sh)) = map curlobj (cameras sh)"
proof -
  have "map curlobj (cameras (fold deliver ws s)) = map curlobj (cameras s)" for ws s
    by (induction ws arbitrary: s) (simp_all add: deliver_curlobj)
  then show ?thesis by (simp add: perform_def)
qed

lemma sweep_camera_curlobj:
  "i < length (cameras s) \<Longrightarrow>
   map curlobj (cameras (snd (sweep_camera clk i s))) = map curlobj (cameras s)"
  by (simp add: sweep_camera_def remove_handle_def add_handle_def Let_def map_update
      list_update_same_conv split: option.splits)

lemma reconcile_curlobj:
  "map curlobj (cameras (snd (reconcile clk io sh))) = map curlobj (cameras sh)"
proof -
  let ?P = "\<lambda>s :: shared. map curlobj (cameras s) = map curlobj (cameras sh)"
  let ?ok = "for_each (\<lambda>h. handle_done clk h (Success (done_err io))) (done_ok io) sh"
  obtain e1 s1 where r1: "?ok = (e1, s1)"
    by (cases ?ok)
  have "?P (snd ?ok)"
    by (rule for_each_preserves [where P = ?P]) (simp_all add: handle_done_frame)
  with r1 have p1: "?P s1"
    by simp
  let ?err = "for_each (\<lambda>m. handle_done clk (fst m) (Failure (snd (snd m)) (fst (snd m))))
                  (done_err io) s1"
  obtain e2 s2 where r2: "?err = (e2, s2)"
    by (cases ?err)
  have "?P (snd ?err)"
    using p1 by (intro for_each_preserves [where P = ?P]) (simp_all add: handle_done_frame)
  with r2 have p2: "?P s2"
    by simp
  have "?P (snd (for_each (sweep_camera clk) [0..<length (cameras s2)] s2))"
  proof (rule for_each_preserves [where P = ?P])
    fix x s
    assume x: "x \<in> set [0..<length (cameras s2)]" and s: "?P s"
    from s p2 have "length (cameras s) = length (cameras s2)"
      by (metis length_map)
    with x s show "?P (snd (sweep_camera clk x s))"
      by (simp add: sweep_camera_curlobj)
  next
    from p2 show "?P s2" .
  qed
  with r1 r2 p1 p2 show ?thesis
    by (cases e1; cases e2) (simp_all add: reconcile_def)
qed

lemma app_step_curlobj:
  "map curlobj (cameras (snd (app_step base clk ev st))) = map curlobj (cameras (snd st))"
proof -
  obtain self sh where st: "st = (self, sh)"
    by (cases st)
  show ?thesis
  proof (cases ev)
    case (Perform io)
    obtain e s' where r: "reconcile clk io (perform io sh) = (e, s')"
      by (cases "reconcile clk io (perform io sh)")
    with reconcile_curlobj [of clk io "perform io sh"]
    have "map curlobj (cameras s') = map curlobj (cameras sh)"
      by (simp add: perform_curlobj)
    with st Perform r show ?thesis
      by (cases "proc self"; cases "the (proc self)"; cases e)
        (simp_all add: app_step_def thread_step_def Let_def perform_curlobj)
  next
    case Test
    with st show ?thesis
      by (cases "proc self"; cases "the (proc self)")
        (simp_all add: app_step_def thread_step_def)
  next
    case (Select ret)
    with st show ?thesis
      by (cases "proc self"; cases "the (proc self)")
        (simp_all add: app_step_def thread_step_def)
  next
    case Terminate
    with st show ?thesis
      by (simp add: app_step_def terminate_shared)
  qed
qed

lemma run_curlobj:
  "map curlobj (cameras (snd (run base clk evs st))) = map curlobj (cameras (snd st))"
  unfolding run_def by (induction evs arbitrary: st) (simp_all add: app_step_curlobj)

lemma new_cameras_curlobj: "map curlobj (new_cameras cs n) = map Some [n..<n + length cs]"
  by (rule nth_equalityI) (simp_all add: new_cameras_def)

lemma handles_distinct:
  "distinct (map curlobj (cameras (snd (run base clk evs
     (initialize (new_instance cs, fresh_shared))))))"
  by (simp add: run_curlobj initialize_shared new_cameras_curlobj fresh_shared_def
      new_instance_def distinct_map)

end
